theory Spec2Isabelle
  imports Main "HOL-Library.Word" "HOL-Library.AList" "HOL-Library.Sublist"
begin

section \<open>libnetwork/datastore: the Store facade over a backing store and a cache\<close>

text \<open>
  A shallow embedding of \<^verbatim>\<open>libnetwork/datastore/datastore.go\<close>. Every facade
  operation runs under the Store's mutex, so the operations are modelled as atomic
  state transformers on the Store; the mutex itself is not modelled.
\<close>

subsection \<open>Errors, bytes, versions\<close>

type_synonym bytes = "8 word list"
type_synonym index = "64 word"

text \<open>
  The Go code compares errors by identity (\<^verbatim>\<open>err == store.ErrKeyExists\<close>) and
  \<^verbatim>\<open>ErrKeyModified = store.ErrKeyModified\<close>, \<^verbatim>\<open>ErrKeyNotFound = store.ErrKeyNotFound\<close>,
  so the facade and the backing store share one error type. \<open>BadRequestError\<close> is
  \<^verbatim>\<open>types.BadRequestErrorf\<close>, \<open>ErrorString\<close> is \<^verbatim>\<open>fmt.Errorf\<close> and any other
  error value a backing store or an object returns.
\<close>

datatype error =
    ErrKeyModified
  | ErrKeyNotFound
  | ErrKeyExists
  | BadRequestError string
  | ErrorString string

record KVPair =
  pair_Key :: string
  pair_Value :: bytes
  pair_LastIndex :: index

subsection \<open>Keys\<close>

definition rootChain :: "string list" where
  "rootChain = [''docker'', ''network'', ''v1.0'']"

text \<open>\<^verbatim>\<open>Key\<close>: every part of the root chain, then every part of the key, each followed by a slash.\<close>

definition Key :: "string list \<Rightarrow> string" where
  "Key key = concat (map (\<lambda>parts. concat (map (\<lambda>part. part @ ''/'') parts)) [rootChain, key])"

text \<open>\<^verbatim>\<open>strings.Trim(key, "/")\<close>: all leading and all trailing slashes are removed.\<close>

definition trim_slash :: "string \<Rightarrow> string" where
  "trim_slash s =
     rev (dropWhile (\<lambda>c. c = CHR ''/'') (rev (dropWhile (\<lambda>c. c = CHR ''/'') s)))"

subsection \<open>The KVObject and KVConstructor contracts\<close>

text \<open>
  \<^verbatim>\<open>KVObject\<close> is an interface; its implementations (networks, endpoints, ...) live
  outside this package. An object is modelled by what its methods return:
  \<open>obj_Value\<close> is \<^verbatim>\<open>Value()\<close> (\<open>None\<close> for a nil slice), \<open>obj_Index\<close> and
  \<open>obj_Exists\<close> are \<^verbatim>\<open>Index()\<close> and \<^verbatim>\<open>Exists()\<close>, \<open>obj_Skip\<close> is \<^verbatim>\<open>Skip()\<close>.
  \<open>obj_Constructor\<close> tells whether the dynamic type also implements
  \<^verbatim>\<open>KVConstructor\<close> (the type assertion \<^verbatim>\<open>kvObject.(KVConstructor)\<close>), and
  \<open>obj_Decodes\<close> is the set of byte strings its \<^verbatim>\<open>SetValue\<close> accepts.
\<close>

record KVObject =
  obj_Key :: "string list"
  obj_KeyPrefix :: "string list"
  obj_Value :: "bytes option"
  obj_Index :: index
  obj_Exists :: bool
  obj_DataScope :: string
  obj_Skip :: bool
  obj_Constructor :: bool
  obj_Decodes :: "bytes \<Rightarrow> bool"

text \<open>\<^verbatim>\<open>SetValue\<close> fails on bytes the object cannot unmarshal, and stores them otherwise.\<close>

definition SetValue :: "KVObject \<Rightarrow> bytes \<Rightarrow> error + KVObject" where
  "SetValue o' b =
     (if obj_Decodes o' b then Inr (o'\<lparr>obj_Value := Some b\<rparr>)
      else Inl (ErrorString ''unmarshal error''))"

text \<open>
  \<^verbatim>\<open>SetIndex\<close> stores the index; by the interface's comment on \<^verbatim>\<open>Exists\<close>
  ("When SetIndex() is called, the object has been stored") it also marks the object
  as existing.
\<close>

definition SetIndex :: "KVObject \<Rightarrow> index \<Rightarrow> KVObject" where
  "SetIndex o' i = o'\<lparr>obj_Index := i, obj_Exists := True\<rparr>"

text \<open>\<^verbatim>\<open>KVConstructor.New\<close>: a new object of the same type, not stored yet.\<close>

definition ctor_New :: "KVObject \<Rightarrow> KVObject" where
  "ctor_New o' = o'\<lparr>obj_Value := None, obj_Index := 0, obj_Exists := False\<rparr>"

subsection \<open>The backing store\<close>

text \<open>
  \<^verbatim>\<open>store.Store\<close> (package \<^verbatim>\<open>libnetwork/internal/kvstore\<close>) is an interface whose
  implementation is not part of this package. It is a parameter of the model: a record
  of the six methods the facade calls, each a function from the backend's state \<open>'b\<close>
  to a result and the next state. Nothing is assumed about what the methods answer.
\<close>

record 'b BackingStore =
  bs_Get :: "'b \<Rightarrow> string \<Rightarrow> (error + KVPair) \<times> 'b"
  bs_Put :: "'b \<Rightarrow> string \<Rightarrow> bytes \<Rightarrow> error option \<times> 'b"
  bs_Exists :: "'b \<Rightarrow> string \<Rightarrow> (error + bool) \<times> 'b"
  bs_List :: "'b \<Rightarrow> string \<Rightarrow> (error + KVPair list) \<times> 'b"
  bs_AtomicPut :: "'b \<Rightarrow> string \<Rightarrow> bytes \<Rightarrow> KVPair option \<Rightarrow> (error + KVPair) \<times> 'b"
  bs_AtomicDelete :: "'b \<Rightarrow> string \<Rightarrow> KVPair option \<Rightarrow> error option \<times> 'b"

text \<open>
  The calls the facade makes on the backing store are recorded, with what they answered,
  in a history kept beside the Store. The history is a ghost field: no operation reads it.
\<close>

datatype event =
    EvGet string "error + KVPair"
  | EvPut string bytes "error option"
  | EvExists string "error + bool"
  | EvList string "error + KVPair list"
  | EvAtomicPut string bytes "KVPair option" "error + KVPair"
  | EvAtomicDelete string "KVPair option" "error option"

subsection \<open>The cache\<close>

text \<open>Modelled from the spec: the cache. \<^verbatim>\<open>cache.go\<close> (the type \<^verbatim>\<open>cache\<close> with
  \<^verbatim>\<open>newCache\<close>, \<^verbatim>\<open>add\<close>, \<^verbatim>\<open>get\<close>, \<^verbatim>\<open>list\<close> and \<^verbatim>\<open>del\<close>) is missing, so the
  cache follows section 4.2 of the specification: a map from the full key to the
  serialized value, the version and the scope of the mirrored object. It is an association
  list with distinct keys, so that listing has a fixed order.\<close>

record cache_entry =
  ce_value :: bytes
  ce_version :: index
  ce_scope :: string

type_synonym cache = "(string \<times> cache_entry) list"

text \<open>Modelled from the spec: the deep copy the cache keeps of an object (cache.go is missing).\<close>

definition entry_of :: "KVObject \<Rightarrow> cache_entry" where
  "entry_of obj =
     \<lparr>ce_value = (case obj_Value obj of None \<Rightarrow> [] | Some v \<Rightarrow> v),
      ce_version = obj_Index obj,
      ce_scope = obj_DataScope obj\<rparr>"

text \<open>Modelled from the spec: the version the cache holds for a key, zero when it holds none
  ("Zero/absent means never persisted"; cache.go is missing).\<close>

definition cache_version :: "cache \<Rightarrow> string \<Rightarrow> index" where
  "cache_version c k = (case map_of c k of None \<Rightarrow> 0 | Some e \<Rightarrow> ce_version e)"

text \<open>Modelled from the spec: \<^verbatim>\<open>cache.add\<close> (cache.go is missing). With \<open>skipPersist\<close>
  false the object's version is stored verbatim; with \<open>skipPersist\<close> true the claimed
  version is compared with the cached one, a mismatch fails with \<open>ErrKeyModified\<close>,
  and otherwise the current version plus one is assigned and stamped onto the object.\<close>

definition cache_add :: "cache \<Rightarrow> KVObject \<Rightarrow> bool \<Rightarrow> error + (KVObject \<times> cache)" where
  "cache_add c obj skipPersist =
     (let k = Key (obj_Key obj) in
      if skipPersist then
        (let cur = cache_version c k in
         if obj_Index obj \<noteq> cur then Inl ErrKeyModified
         else (let obj' = SetIndex obj (cur + 1)
               in Inr (obj', AList.update k (entry_of obj') c)))
      else Inr (obj, AList.update k (entry_of obj) c))"

text \<open>Modelled from the spec: \<^verbatim>\<open>cache.get\<close> (cache.go is missing): a hit hydrates the
  object with \<^verbatim>\<open>SetValue\<close> and \<^verbatim>\<open>SetIndex\<close>, a miss fails not-found.\<close>

definition cache_get :: "cache \<Rightarrow> KVObject \<Rightarrow> error + KVObject" where
  "cache_get c obj =
     (case map_of c (Key (obj_Key obj)) of
        None \<Rightarrow> Inl ErrKeyNotFound
      | Some e \<Rightarrow>
          (case SetValue obj (ce_value e) of
             Inl err \<Rightarrow> Inl err
           | Inr obj' \<Rightarrow> Inr (SetIndex obj' (ce_version e))))"

text \<open>Modelled from the spec: \<^verbatim>\<open>cache.del\<close> (cache.go is missing): the entry of the
  object's key is removed, and a key the cache does not hold is a no-op. For a skip
  object the cache is the authority of invariant I2, so a cached entry is removed only
  at the version the caller claims.\<close>

definition cache_del :: "cache \<Rightarrow> KVObject \<Rightarrow> bool \<Rightarrow> error + cache" where
  "cache_del c obj skipPersist =
     (let k = Key (obj_Key obj) in
      case map_of c k of
        None \<Rightarrow> Inr c
      | Some e \<Rightarrow>
          if skipPersist \<and> obj_Index obj \<noteq> ce_version e then Inl ErrKeyModified
          else Inr (AList.delete k c))"

text \<open>Modelled from the spec: the objects \<^verbatim>\<open>cache.list\<close> materializes for the entries
  under a prefix, each by \<^verbatim>\<open>New\<close>, \<^verbatim>\<open>SetValue\<close> and \<^verbatim>\<open>SetIndex\<close> (cache.go is missing).\<close>

fun cache_materialize :: "KVObject \<Rightarrow> (string \<times> cache_entry) list \<Rightarrow> error + KVObject list" where
  "cache_materialize ex [] = Inr []"
| "cache_materialize ex ((k, e) # rest) =
     (case SetValue (ctor_New ex) (ce_value e) of
        Inl err \<Rightarrow> Inl err
      | Inr obj \<Rightarrow>
          (case cache_materialize ex rest of
             Inl err \<Rightarrow> Inl err
           | Inr objs \<Rightarrow> Inr (SetIndex obj (ce_version e) # objs)))"

text \<open>Modelled from the spec: \<^verbatim>\<open>cache.list\<close> (cache.go is missing): enumeration needs
  the exemplar's \<^verbatim>\<open>KVConstructor\<close> and fails without it; otherwise every entry whose key
  falls under the exemplar's prefix is materialized.\<close>

definition cache_list :: "cache \<Rightarrow> KVObject \<Rightarrow> error + KVObject list" where
  "cache_list c ex =
     (if \<not> obj_Constructor ex
      then Inl (ErrorString ''object does not implement KVConstructor interface'')
      else cache_materialize ex
             (filter (\<lambda>(k, e). prefix (Key (obj_KeyPrefix ex)) k) c))"

subsection \<open>The Store\<close>

text \<open>
  \<^verbatim>\<open>Store\<close>: the scope, the backing store's state, the cache (\<open>None\<close> for a nil
  pointer) and the ghost history of backend calls.
\<close>

record 'b Store =
  scope :: string
  store :: 'b
  cache :: "cache option"
  history :: "event list"

definition store_AtomicPut ::
  "'b BackingStore \<Rightarrow> 'b Store \<Rightarrow> string \<Rightarrow> bytes \<Rightarrow> KVPair option \<Rightarrow> (error + KVPair) \<times> 'b Store" where
  "store_AtomicPut B ds k v previous =
     (let (r, b') = bs_AtomicPut B (store ds) k v previous
      in (r, ds\<lparr>store := b', history := history ds @ [EvAtomicPut k v previous r]\<rparr>))"

definition store_AtomicDelete ::
  "'b BackingStore \<Rightarrow> 'b Store \<Rightarrow> string \<Rightarrow> KVPair option \<Rightarrow> error option \<times> 'b Store" where
  "store_AtomicDelete B ds k previous =
     (let (r, b') = bs_AtomicDelete B (store ds) k previous
      in (r, ds\<lparr>store := b', history := history ds @ [EvAtomicDelete k previous r]\<rparr>))"

definition store_Get :: "'b BackingStore \<Rightarrow> 'b Store \<Rightarrow> string \<Rightarrow> (error + KVPair) \<times> 'b Store" where
  "store_Get B ds k =
     (let (r, b') = bs_Get B (store ds) k
      in (r, ds\<lparr>store := b', history := history ds @ [EvGet k r]\<rparr>))"

definition store_Put :: "'b BackingStore \<Rightarrow> 'b Store \<Rightarrow> string \<Rightarrow> bytes \<Rightarrow> error option \<times> 'b Store" where
  "store_Put B ds k v =
     (let (r, b') = bs_Put B (store ds) k v
      in (r, ds\<lparr>store := b', history := history ds @ [EvPut k v r]\<rparr>))"

definition store_Exists :: "'b BackingStore \<Rightarrow> 'b Store \<Rightarrow> string \<Rightarrow> (error + bool) \<times> 'b Store" where
  "store_Exists B ds k =
     (let (r, b') = bs_Exists B (store ds) k
      in (r, ds\<lparr>store := b', history := history ds @ [EvExists k r]\<rparr>))"

definition store_List :: "'b BackingStore \<Rightarrow> 'b Store \<Rightarrow> string \<Rightarrow> (error + KVPair list) \<times> 'b Store" where
  "store_List B ds k =
     (let (r, b') = bs_List B (store ds) k
      in (r, ds\<lparr>store := b', history := history ds @ [EvList k r]\<rparr>))"

text \<open>\<^verbatim>\<open>Scope\<close> returns the scope of the store.\<close>

definition Scope :: "'b Store \<Rightarrow> string" where
  "Scope ds = scope ds"

subsection \<open>PutObjectAtomic\<close>

text \<open>
  The label \<^verbatim>\<open>add_cache\<close>: with a cache, the object goes to \<^verbatim>\<open>cache.add\<close> together
  with its skip flag; without one the call succeeds. The result is the returned error
  (\<open>None\<close> for nil), the object as the call leaves it, and the Store.
\<close>

definition add_cache :: "'b Store \<Rightarrow> KVObject \<Rightarrow> error option \<times> KVObject \<times> 'b Store" where
  "add_cache ds kvObject =
     (case cache ds of
        Some c \<Rightarrow>
          (case cache_add c kvObject (obj_Skip kvObject) of
             Inl err \<Rightarrow> (Some err, kvObject, ds)
           | Inr (obj', c') \<Rightarrow> (None, obj', ds\<lparr>cache := Some c'\<rparr>))
      | None \<Rightarrow> (None, kvObject, ds))"

definition PutObjectAtomic ::
  "'b BackingStore \<Rightarrow> 'b Store \<Rightarrow> KVObject option \<Rightarrow> error option \<times> KVObject option \<times> 'b Store" where
  "PutObjectAtomic B ds kvObject =
     (case kvObject of
        None \<Rightarrow> (Some (BadRequestError ''invalid KV Object : nil''), None, ds)
      | Some obj \<Rightarrow>
          (case obj_Value obj of
             None \<Rightarrow>
               (Some (BadRequestError
                  (''invalid KV Object with a nil Value for key '' @ Key (obj_Key obj))),
                Some obj, ds)
           | Some kvObjValue \<Rightarrow>
               if obj_Skip obj then
                 (let (err, obj', ds') = add_cache ds obj in (err, Some obj', ds'))
               else
                 (let previous =
                        (if obj_Exists obj
                         then Some \<lparr>pair_Key = Key (obj_Key obj), pair_Value = [],
                                    pair_LastIndex = obj_Index obj\<rparr>
                         else None)
                  in case store_AtomicPut B ds (Key (obj_Key obj)) kvObjValue previous of
                       (Inl err, ds1) \<Rightarrow>
                         if err = ErrKeyExists then (Some ErrKeyModified, Some obj, ds1)
                         else (Some err, Some obj, ds1)
                     | (Inr pair, ds1) \<Rightarrow>
                         (let (err, obj', ds') = add_cache ds1 (SetIndex obj (pair_LastIndex pair))
                          in (err, Some obj', ds')))))"

subsection \<open>GetObject\<close>

text \<open>
  With a cache the lookup is \<^verbatim>\<open>cache.get(o)\<close>, by the object's own key; the \<open>key\<close>
  argument is read only without a cache. The object must not be nil (the Go code would
  panic on it).
\<close>

definition GetObject ::
  "'b BackingStore \<Rightarrow> 'b Store \<Rightarrow> string \<Rightarrow> KVObject \<Rightarrow> error option \<times> KVObject \<times> 'b Store" where
  "GetObject B ds key obj =
     (case cache ds of
        Some c \<Rightarrow>
          (case cache_get c obj of
             Inl err \<Rightarrow> (Some err, obj, ds)
           | Inr obj' \<Rightarrow> (None, obj', ds))
      | None \<Rightarrow>
          (case store_Get B ds key of
             (Inl err, ds1) \<Rightarrow> (Some err, obj, ds1)
           | (Inr kvPair, ds1) \<Rightarrow>
               (case SetValue obj (pair_Value kvPair) of
                  Inl err \<Rightarrow> (Some err, obj, ds1)
                | Inr obj1 \<Rightarrow> (None, SetIndex obj1 (pair_LastIndex kvPair), ds1))))"

subsection \<open>ensureParent, iterateKVPairsFromStore, List and Map\<close>

definition ensureParent :: "'b BackingStore \<Rightarrow> 'b Store \<Rightarrow> string \<Rightarrow> error option \<times> 'b Store" where
  "ensureParent B ds parent =
     (case store_Exists B ds parent of
        (Inl err, ds1) \<Rightarrow> (Some err, ds1)
      | (Inr exists, ds1) \<Rightarrow>
          if exists then (None, ds1) else store_Put B ds1 parent [])"

text \<open>
  The loop over \<^verbatim>\<open>kvList\<close>. The callback of the Go code appends to a slice or stores
  into a map it closes over; here it transforms an accumulator.
\<close>

fun iterate_pairs ::
  "KVObject \<Rightarrow> (string \<Rightarrow> KVObject \<Rightarrow> 'a \<Rightarrow> 'a) \<Rightarrow> KVPair list \<Rightarrow> 'a \<Rightarrow> error + 'a" where
  "iterate_pairs ctor callback [] acc = Inr acc"
| "iterate_pairs ctor callback (kvPair # rest) acc =
     (if length (pair_Value kvPair) = 0 then iterate_pairs ctor callback rest acc
      else
        (case SetValue (ctor_New ctor) (pair_Value kvPair) of
           Inl err \<Rightarrow> Inl err
         | Inr dstO \<Rightarrow>
             iterate_pairs ctor callback rest
               (callback (pair_Key kvPair) (SetIndex dstO (pair_LastIndex kvPair)) acc)))"

definition iterateKVPairsFromStore ::
  "'b BackingStore \<Rightarrow> 'b Store \<Rightarrow> string \<Rightarrow> KVObject \<Rightarrow> (string \<Rightarrow> KVObject \<Rightarrow> 'a \<Rightarrow> 'a) \<Rightarrow> 'a
     \<Rightarrow> (error + 'a) \<times> 'b Store" where
  "iterateKVPairsFromStore B ds key kvObject callback acc =
     (if \<not> obj_Constructor kvObject
      then (Inl (ErrorString
                  ''error listing objects, object does not implement KVConstructor interface''),
            ds)
      else
        (case ensureParent B ds key of
           (Some err, ds1) \<Rightarrow> (Inl err, ds1)
         | (None, ds1) \<Rightarrow>
             (case store_List B ds1 key of
                (Inl err, ds2) \<Rightarrow> (Inl err, ds2)
              | (Inr kvList, ds2) \<Rightarrow> (iterate_pairs kvObject callback kvList acc, ds2))))"

text \<open>The callbacks \<^verbatim>\<open>cb\<close> of \<^verbatim>\<open>List\<close> and \<^verbatim>\<open>Map\<close>: the first appends the object to
  the slice, the second stores it under the key with the slashes at both ends trimmed.\<close>

definition List_cb :: "string \<Rightarrow> KVObject \<Rightarrow> KVObject list \<Rightarrow> KVObject list" where
  "List_cb key val kvol = kvol @ [val]"

definition Map_cb :: "string \<Rightarrow> KVObject \<Rightarrow> (string \<rightharpoonup> KVObject) \<Rightarrow> (string \<rightharpoonup> KVObject)" where
  "Map_cb key val kvol = kvol(trim_slash key \<mapsto> val)"

definition List ::
  "'b BackingStore \<Rightarrow> 'b Store \<Rightarrow> string \<Rightarrow> KVObject \<Rightarrow> (error + KVObject list) \<times> 'b Store" where
  "List B ds key kvObject =
     (case cache ds of
        Some c \<Rightarrow> (cache_list c kvObject, ds)
      | None \<Rightarrow>
          iterateKVPairsFromStore B ds key kvObject List_cb [])"

definition Map ::
  "'b BackingStore \<Rightarrow> 'b Store \<Rightarrow> string \<Rightarrow> KVObject
     \<Rightarrow> (error + (string \<rightharpoonup> KVObject)) \<times> 'b Store" where
  "Map B ds key kvObject =
     iterateKVPairsFromStore B ds key kvObject Map_cb Map.empty"

subsection \<open>DeleteObjectAtomic\<close>

text \<open>The label \<^verbatim>\<open>deleteCache\<close>: with a cache, \<^verbatim>\<open>cache.del\<close> with the skip flag.\<close>

definition deleteCache :: "'b Store \<Rightarrow> KVObject \<Rightarrow> error option \<times> 'b Store" where
  "deleteCache ds kvObject =
     (case cache ds of
        Some c \<Rightarrow>
          (case cache_del c kvObject (obj_Skip kvObject) of
             Inl err \<Rightarrow> (Some err, ds)
           | Inr c' \<Rightarrow> (None, ds\<lparr>cache := Some c'\<rparr>))
      | None \<Rightarrow> (None, ds))"

definition DeleteObjectAtomic ::
  "'b BackingStore \<Rightarrow> 'b Store \<Rightarrow> KVObject option \<Rightarrow> error option \<times> 'b Store" where
  "DeleteObjectAtomic B ds kvObject =
     (case kvObject of
        None \<Rightarrow> (Some (BadRequestError ''invalid KV Object : nil''), ds)
      | Some obj \<Rightarrow>
          (let previous = Some \<lparr>pair_Key = Key (obj_Key obj), pair_Value = [],
                                 pair_LastIndex = obj_Index obj\<rparr>
           in if obj_Skip obj then deleteCache ds obj
              else
                (case store_AtomicDelete B ds (Key (obj_Key obj)) previous of
                   (Some err, ds1) \<Rightarrow>
                     if err = ErrKeyExists then (Some ErrKeyModified, ds1)
                     else (Some err, ds1)
                 | (None, ds1) \<Rightarrow> deleteCache ds1 obj)))"

subsection \<open>Configuration and construction\<close>

record Config =
  Bucket :: string
  ConnectionTimeout :: int

record ScopeClientCfg =
  Provider :: string
  Address :: string
  Config :: "Config option"

record ScopeCfg =
  Client :: ScopeClientCfg

text \<open>
  \<^verbatim>\<open>store.BOLTDB\<close> and \<^verbatim>\<open>scope.Local\<close> are constants of other packages (kvstore and
  scope), with the values those packages give them; \<^verbatim>\<open>time.Minute\<close> is in nanoseconds.
\<close>

definition BOLTDB :: string where
  "BOLTDB = ''boltdb''"

definition scope_Local :: string where
  "scope_Local = ''local''"

definition defaultPrefix :: string where
  "defaultPrefix = ''/var/lib/docker/network/files''"

definition DefaultScope :: "string \<Rightarrow> ScopeCfg" where
  "DefaultScope dataDir =
     (let dbpath = (if dataDir = [] then defaultPrefix @ ''/local-kv.db''
                    else dataDir @ ''/network/files/local-kv.db'')
      in \<lparr>Client = \<lparr>Provider = BOLTDB, Address = dbpath,
                     Config = Some \<lparr>Bucket = ''libnetwork'',
                                    ConnectionTimeout = 60 * 1000000000\<rparr>\<rparr>\<rparr>)"

text \<open>\<^verbatim>\<open>strings.Split(addr, ",")\<close>: the pieces between commas; one piece without a comma.\<close>

fun split_comma :: "string \<Rightarrow> string list" where
  "split_comma [] = [[]]"
| "split_comma (c # cs) =
     (if c = CHR '','' then [] # split_comma cs
      else (case split_comma cs of
              [] \<Rightarrow> [[c]]
            | piece # pieces \<Rightarrow> (c # piece) # pieces))"

text \<open>Modelled from the spec: \<^verbatim>\<open>newCache\<close> (cache.go is missing) installs a cache that
  holds no object yet.\<close>

definition newCache :: "cache option" where
  "newCache = Some []"

text \<open>
  \<^verbatim>\<open>boltdb.New\<close> belongs to the kvstore package; it is the parameter \<open>boltdb_New\<close>,
  which opens a backend state or fails.
\<close>

definition newClient ::
  "(string list \<Rightarrow> Config \<Rightarrow> error + 'b) \<Rightarrow> string \<Rightarrow> string \<Rightarrow> Config option \<Rightarrow> error + 'b Store" where
  "newClient boltdb_New kv addr config =
     (if kv \<noteq> BOLTDB then Inl (ErrorString ''unsupported KV store'')
      else
        (let config' = (case config of
                          None \<Rightarrow> \<lparr>Bucket = [], ConnectionTimeout = 0\<rparr>
                        | Some c \<Rightarrow> c)
         in case boltdb_New (split_comma addr) config' of
              Inl err \<Rightarrow> Inl err
            | Inr s \<Rightarrow> Inr \<lparr>scope = scope_Local, store = s, cache = newCache, history = []\<rparr>))"

definition New :: "(string list \<Rightarrow> Config \<Rightarrow> error + 'b) \<Rightarrow> ScopeCfg \<Rightarrow> error + 'b Store" where
  "New boltdb_New cfg =
     (let cfg' = (if Provider (Client cfg) = [] \<or> Address (Client cfg) = []
                  then DefaultScope [] else cfg)
      in newClient boltdb_New (Provider (Client cfg')) (Address (Client cfg')) (Config (Client cfg')))"

subsection \<open>Facade histories and the versions the backend accepted\<close>

text \<open>
  The last version the backend accepted for a key, read off the history of backend calls:
  a successful \<^verbatim>\<open>AtomicPut\<close> sets it to the version of the returned pair, a successful
  \<^verbatim>\<open>AtomicDelete\<close> removes the key. A key with an accepted version is one the backend
  holds through the facade.
\<close>

fun accept :: "(string \<times> index) list \<Rightarrow> event \<Rightarrow> (string \<times> index) list" where
  "accept la (EvAtomicPut k v previous (Inr pair)) = AList.update k (pair_LastIndex pair) la"
| "accept la (EvAtomicDelete k previous None) = AList.delete k la"
| "accept la ev = la"

definition last_accepted :: "event list \<Rightarrow> (string \<times> index) list" where
  "last_accepted h = foldl accept [] h"

definition backend_holds :: "'b Store \<Rightarrow> string \<Rightarrow> bool" where
  "backend_holds ds k = (map_of (last_accepted (history ds)) k \<noteq> None)"

text \<open>
  Invariant I3 of the specification, in its words: for every key that the cache and the
  backend both hold, the cache's version is at least the last version the backend accepted.
\<close>

definition cache_not_behind :: "'b Store \<Rightarrow> bool" where
  "cache_not_behind ds =
     (case cache ds of
        None \<Rightarrow> True
      | Some c \<Rightarrow>
          list_all
            (\<lambda>k. case (map_of c k, map_of (last_accepted (history ds)) k) of
                   (Some e, Some v) \<Rightarrow> v \<le> ce_version e
                 | _ \<Rightarrow> True)
            (map fst c))"

text \<open>
  The invariant that carries I3 through a run: the cache holds every key the backend
  holds, at a version that is not below the accepted one.
\<close>

definition coherent :: "'b Store \<Rightarrow> bool" where
  "coherent ds =
     (case cache ds of
        None \<Rightarrow> True
      | Some c \<Rightarrow>
          (\<forall>k v. map_of (last_accepted (history ds)) k = Some v \<longrightarrow>
             (\<exists>e. map_of c k = Some e \<and> v \<le> ce_version e)))"

text \<open>
  The history is faithful to the backend when replaying it call by call, from the state
  the backend started in, gives at every call the answer the history records; the replay
  then ends in the backend's state.
\<close>

fun replay_event :: "'b BackingStore \<Rightarrow> 'b \<Rightarrow> event \<Rightarrow> 'b option" where
  "replay_event B b (EvGet k r) =
     (case bs_Get B b k of (r', b') \<Rightarrow> if r' = r then Some b' else None)"
| "replay_event B b (EvPut k v r) =
     (case bs_Put B b k v of (r', b') \<Rightarrow> if r' = r then Some b' else None)"
| "replay_event B b (EvExists k r) =
     (case bs_Exists B b k of (r', b') \<Rightarrow> if r' = r then Some b' else None)"
| "replay_event B b (EvList k r) =
     (case bs_List B b k of (r', b') \<Rightarrow> if r' = r then Some b' else None)"
| "replay_event B b (EvAtomicPut k v previous r) =
     (case bs_AtomicPut B b k v previous of (r', b') \<Rightarrow> if r' = r then Some b' else None)"
| "replay_event B b (EvAtomicDelete k previous r) =
     (case bs_AtomicDelete B b k previous of (r', b') \<Rightarrow> if r' = r then Some b' else None)"

fun replay :: "'b BackingStore \<Rightarrow> 'b \<Rightarrow> event list \<Rightarrow> 'b option" where
  "replay B b [] = Some b"
| "replay B b (ev # evs) =
     (case replay_event B b ev of None \<Rightarrow> None | Some b' \<Rightarrow> replay B b' evs)"

definition faithful :: "'b BackingStore \<Rightarrow> 'b \<Rightarrow> 'b Store \<Rightarrow> bool" where
  "faithful B b0 ds = (replay B b0 (history ds) = Some (store ds))"

text \<open>Calls of the facade, and runs of them on a Store.\<close>

datatype op =
    OpPut "KVObject option"
  | OpDelete "KVObject option"
  | OpGet string KVObject
  | OpList string KVObject
  | OpMap string KVObject

fun step :: "'b BackingStore \<Rightarrow> 'b Store \<Rightarrow> op \<Rightarrow> 'b Store" where
  "step B ds (OpPut kvObject) = snd (snd (PutObjectAtomic B ds kvObject))"
| "step B ds (OpDelete kvObject) = snd (DeleteObjectAtomic B ds kvObject)"
| "step B ds (OpGet key obj) = snd (snd (GetObject B ds key obj))"
| "step B ds (OpList key obj) = snd (List B ds key obj)"
| "step B ds (OpMap key obj) = snd (Map B ds key obj)"

fun run :: "'b BackingStore \<Rightarrow> 'b Store \<Rightarrow> op list \<Rightarrow> 'b Store" where
  "run B ds [] = ds"
| "run B ds (x # xs) = run B (step B ds x) xs"

text \<open>
  The calls that keep a key in one persistence mode: a skip delete only of a key the
  backend does not hold, and a skip put of a key the backend holds only below the largest
  \<^verbatim>\<open>uint64\<close> version.
\<close>

fun allowed :: "'b Store \<Rightarrow> op \<Rightarrow> bool" where
  "allowed ds (OpPut (Some obj)) =
     (obj_Skip obj \<and> backend_holds ds (Key (obj_Key obj)) \<longrightarrow> obj_Index obj \<noteq> - 1)"
| "allowed ds (OpDelete (Some obj)) =
     (obj_Skip obj \<longrightarrow> \<not> backend_holds ds (Key (obj_Key obj)))"
| "allowed ds x = True"

fun valid_run :: "'b BackingStore \<Rightarrow> 'b Store \<Rightarrow> op list \<Rightarrow> bool" where
  "valid_run B ds [] = True"
| "valid_run B ds (x # xs) = (allowed ds x \<and> valid_run B (step B ds x) xs)"

subsection \<open>An in-memory backing store\<close>

text \<open>Modelled from the spec: a backing store with the interface of section 6 (the
  kvstore implementations are missing), used to run the facade on concrete inputs.
  It keeps a value and a version per key; a write assigns the key's version plus one,
  starting at 1; \<open>AtomicPut\<close> without a previous pair needs the key to be absent, with
  one it needs the key at that version; \<open>List\<close> of a prefix nothing is stored under
  fails not-found.\<close>

type_synonym mem = "(string \<times> bytes \<times> index) list"

definition mem_pair :: "string \<Rightarrow> bytes \<times> index \<Rightarrow> KVPair" where
  "mem_pair k e = \<lparr>pair_Key = k, pair_Value = fst e, pair_LastIndex = snd e\<rparr>"

definition mem_Get :: "mem \<Rightarrow> string \<Rightarrow> (error + KVPair) \<times> mem" where
  "mem_Get m k =
     (case map_of m k of None \<Rightarrow> (Inl ErrKeyNotFound, m) | Some e \<Rightarrow> (Inr (mem_pair k e), m))"

definition mem_write :: "mem \<Rightarrow> string \<Rightarrow> bytes \<Rightarrow> KVPair \<times> mem" where
  "mem_write m k v =
     (let i = (case map_of m k of None \<Rightarrow> 1 | Some e \<Rightarrow> snd e + 1)
      in (mem_pair k (v, i), AList.update k (v, i) m))"

definition mem_Put :: "mem \<Rightarrow> string \<Rightarrow> bytes \<Rightarrow> error option \<times> mem" where
  "mem_Put m k v = (None, snd (mem_write m k v))"

definition mem_Exists :: "mem \<Rightarrow> string \<Rightarrow> (error + bool) \<times> mem" where
  "mem_Exists m k = (Inr (map_of m k \<noteq> None), m)"

definition mem_List :: "mem \<Rightarrow> string \<Rightarrow> (error + KVPair list) \<times> mem" where
  "mem_List m p =
     (let found = filter (\<lambda>(k, e). prefix p k) m
      in if found = [] then (Inl ErrKeyNotFound, m)
         else (Inr (map (\<lambda>(k, e). mem_pair k e) found), m))"

definition mem_AtomicPut :: "mem \<Rightarrow> string \<Rightarrow> bytes \<Rightarrow> KVPair option \<Rightarrow> (error + KVPair) \<times> mem" where
  "mem_AtomicPut m k v previous =
     (case previous of
        None \<Rightarrow>
          (case map_of m k of
             Some e \<Rightarrow> (Inl ErrKeyExists, m)
           | None \<Rightarrow> (let (p, m') = mem_write m k v in (Inr p, m')))
      | Some prev \<Rightarrow>
          (case map_of m k of
             None \<Rightarrow> (Inl ErrKeyModified, m)
           | Some e \<Rightarrow>
               if snd e \<noteq> pair_LastIndex prev then (Inl ErrKeyModified, m)
               else (let (p, m') = mem_write m k v in (Inr p, m'))))"

definition mem_AtomicDelete :: "mem \<Rightarrow> string \<Rightarrow> KVPair option \<Rightarrow> error option \<times> mem" where
  "mem_AtomicDelete m k previous =
     (case map_of m k of
        None \<Rightarrow> (Some ErrKeyNotFound, m)
      | Some e \<Rightarrow>
          (case previous of
             None \<Rightarrow> (None, AList.delete k m)
           | Some prev \<Rightarrow>
               if snd e \<noteq> pair_LastIndex prev then (Some ErrKeyModified, m)
               else (None, AList.delete k m)))"

definition mem_store :: "mem BackingStore" where
  "mem_store =
     \<lparr>bs_Get = mem_Get, bs_Put = mem_Put, bs_Exists = mem_Exists, bs_List = mem_List,
      bs_AtomicPut = mem_AtomicPut, bs_AtomicDelete = mem_AtomicDelete\<rparr>"

text \<open>Objects and Stores for the concrete runs.\<close>

definition net_obj :: "string \<Rightarrow> bytes \<Rightarrow> bool \<Rightarrow> KVObject" where
  "net_obj name v skip =
     \<lparr>obj_Key = [''network'', name], obj_KeyPrefix = [''network''], obj_Value = Some v,
      obj_Index = 0, obj_Exists = False, obj_DataScope = ''local'', obj_Skip = skip,
      obj_Constructor = True, obj_Decodes = (\<lambda>b. True)\<rparr>"

definition empty_Store :: "mem Store" where
  "empty_Store = \<lparr>scope = ''local'', store = [], cache = Some [], history = []\<rparr>"

text \<open>A Store whose cache alone holds the object \<open>a\<close> at version 1, and the object
  \<open>a\<close> as a caller holds it after a write at a given version.\<close>

definition cached_Store :: "mem Store" where
  "cached_Store =
     \<lparr>scope = ''local'', store = [],
      cache = Some [(''docker/network/v1.0/network/a/'',
                     \<lparr>ce_value = [1, 2], ce_version = 1, ce_scope = ''local''\<rparr>)],
      history = []\<rparr>"

definition stored_obj :: "bytes \<Rightarrow> bool \<Rightarrow> index \<Rightarrow> KVObject" where
  "stored_obj v skip i = (net_obj ''a'' v skip)\<lparr>obj_Index := i, obj_Exists := True\<rparr>"

text \<open>A Store whose backend alone holds the object \<open>a\<close>, with an empty cache and
  with no cache.\<close>

definition disk_Store :: "mem Store" where
  "disk_Store =
     \<lparr>scope = ''local'', store = [(''docker/network/v1.0/network/a/'', [1, 2], 1)],
      cache = Some [], history = []\<rparr>"

definition nocache_Store :: "mem Store" where
  "nocache_Store = disk_Store\<lparr>cache := None\<rparr>"

text \<open>The Store after one and after two persisted writes of the object \<open>a\<close>, and a
  run that then deletes and rewrites \<open>a\<close> as a skip object.\<close>

definition once_Store :: "mem Store" where
  "once_Store =
     \<lparr>scope = ''local'', store = [(''docker/network/v1.0/network/a/'', [1], 1)],
      cache = Some [(''docker/network/v1.0/network/a/'',
                     \<lparr>ce_value = [1], ce_version = 1, ce_scope = ''local''\<rparr>)],
      history =
        [EvAtomicPut ''docker/network/v1.0/network/a/'' [1] None
           (Inr \<lparr>pair_Key = ''docker/network/v1.0/network/a/'', pair_Value = [1],
                 pair_LastIndex = 1\<rparr>)]\<rparr>"

definition twice_Store :: "mem Store" where
  "twice_Store =
     \<lparr>scope = ''local'', store = [(''docker/network/v1.0/network/a/'', [2], 2)],
      cache = Some [(''docker/network/v1.0/network/a/'',
                     \<lparr>ce_value = [2], ce_version = 2, ce_scope = ''local''\<rparr>)],
      history =
        [EvAtomicPut ''docker/network/v1.0/network/a/'' [1] None
           (Inr \<lparr>pair_Key = ''docker/network/v1.0/network/a/'', pair_Value = [1],
                 pair_LastIndex = 1\<rparr>),
         EvAtomicPut ''docker/network/v1.0/network/a/'' [2]
           (Some \<lparr>pair_Key = ''docker/network/v1.0/network/a/'', pair_Value = [],
                  pair_LastIndex = 1\<rparr>)
           (Inr \<lparr>pair_Key = ''docker/network/v1.0/network/a/'', pair_Value = [2],
                 pair_LastIndex = 2\<rparr>)]\<rparr>"

definition two_puts :: "op list" where
  "two_puts = [OpPut (Some (net_obj ''a'' [1] False)), OpPut (Some (stored_obj [2] False 1))]"

definition mixed_mode_ops :: "op list" where
  "mixed_mode_ops =
     two_puts @ [OpDelete (Some (stored_obj [2] True 2)), OpPut (Some (net_obj ''a'' [3] True))]"

text \<open>A backend that already holds \<open>a\<close> at version 5 when the Store is constructed, and
  the Store \<^verbatim>\<open>New\<close> returns over it; a backend that holds \<open>a\<close> one below the largest
  \<^verbatim>\<open>uint64\<close> version (\<open>- 1\<close> is \<open>2 ^ 64 - 1\<close>); a backend whose \<^verbatim>\<open>Get\<close> fails; and an
  object for the key of \<open>a\<close> that cannot unmarshal any value.\<close>

definition pre_Store :: "mem Store" where
  "pre_Store =
     \<lparr>scope = ''local'', store = [(''docker/network/v1.0/network/a/'', [9], 5)],
      cache = Some [], history = []\<rparr>"

definition brink_Store :: "mem Store" where
  "brink_Store =
     \<lparr>scope = ''local'', store = [(''docker/network/v1.0/network/a/'', [1], - 2)],
      cache = Some [], history = []\<rparr>"

definition wrap_ops :: "op list" where
  "wrap_ops = [OpPut (Some (stored_obj [2] False (- 2))), OpPut (Some (stored_obj [3] True (- 1)))]"

definition deaf_store :: "mem BackingStore" where
  "deaf_store = mem_store\<lparr>bs_Get := \<lambda>m k. (Inl (ErrorString ''i/o error''), m)\<rparr>"

definition plain_Store :: "mem Store" where
  "plain_Store = \<lparr>scope = ''local'', store = [], cache = None, history = []\<rparr>"

definition other_obj :: KVObject where
  "other_obj = (net_obj ''a'' [] False)\<lparr>obj_Decodes := \<lambda>b. False\<rparr>"

text \<open>
  A sequence of skip puts as the cache sees it: the objects go to \<^verbatim>\<open>add\<close> with
  \<open>skipPersist\<close> true one after the other, every one has to succeed, and the versions
  stamped onto them are collected.
\<close>

fun skip_adds :: "cache \<Rightarrow> KVObject list \<Rightarrow> error + index list" where
  "skip_adds c [] = Inr []"
| "skip_adds c (obj # objs) =
     (case cache_add c obj True of
        Inl e \<Rightarrow> Inl e
      | Inr (obj', c') \<Rightarrow>
          (case skip_adds c' objs of
             Inl e \<Rightarrow> Inl e
           | Inr vs \<Rightarrow> Inr (obj_Index obj' # vs)))"

subsection \<open>Unfolding rules for the concrete runs\<close>

lemmas mem_defs =
  mem_store_def mem_Get_def mem_Put_def mem_Exists_def mem_List_def mem_AtomicPut_def
  mem_AtomicDelete_def mem_write_def mem_pair_def

lemmas store_defs =
  store_Get_def store_Put_def store_Exists_def store_List_def store_AtomicPut_def
  store_AtomicDelete_def

lemmas cache_defs =
  cache_add_def cache_get_def cache_del_def cache_version_def entry_of_def SetIndex_def
  SetValue_def

lemmas run_defs =
  net_obj_def stored_obj_def empty_Store_def cached_Store_def disk_Store_def
  nocache_Store_def

section \<open>Properties\<close>

subsection \<open>Concrete keys\<close>

lemma Key_net: "Key [''network'', n] = ''docker/network/v1.0/network/'' @ n @ ''/''"
  by (simp add: Key_def rootChain_def)

subsection \<open>PutObjectAtomic on an object that is persisted\<close>

text \<open>
  C1: for an object with \<^verbatim>\<open>Skip() == false\<close> (and a non-nil \<^verbatim>\<open>Value()\<close>, which
  \<^verbatim>\<open>PutObjectAtomic\<close> checks first), the previous-version token is nil when
  \<^verbatim>\<open>Exists()\<close> is false and the pair of \<^verbatim>\<open>Key(obj.Key()...)\<close> and \<^verbatim>\<open>Index()\<close>
  when it is true; exactly one backend call is made, \<^verbatim>\<open>AtomicPut\<close> with that key, value
  and token; a version conflict reported by the backend is returned as
  \<open>ErrKeyModified\<close>; on success the object is stamped with the version of the returned
  pair and then handed to the cache's \<^verbatim>\<open>add\<close> with the skip flag false (when the Store
  has a cache), whose result is the result of the call.
\<close>

theorem PutObjectAtomic_nonskip:
  "\<not> obj_Skip obj \<Longrightarrow> obj_Value obj = Some v \<Longrightarrow>
   (let k = Key (obj_Key obj);
        previous = (if obj_Exists obj
                    then Some \<lparr>pair_Key = k, pair_Value = [], pair_LastIndex = obj_Index obj\<rparr>
                    else None);
        (r, b') = bs_AtomicPut B (store ds) k v previous;
        (err, obj', ds') = PutObjectAtomic B ds (Some obj)
    in history ds' = history ds @ [EvAtomicPut k v previous r] \<and> store ds' = b' \<and>
       (r = Inl ErrKeyExists \<or> r = Inl ErrKeyModified \<longrightarrow> err = Some ErrKeyModified) \<and>
       (\<forall>pair. r = Inr pair \<longrightarrow>
          (let stamped = SetIndex obj (pair_LastIndex pair)
           in obj_Index stamped = pair_LastIndex pair \<and>
              (case cache ds of
                 None \<Rightarrow> err = None \<and> obj' = Some stamped \<and> cache ds' = None
               | Some c \<Rightarrow>
                   (case cache_add c stamped False of
                      Inl e \<Rightarrow> err = Some e
                    | Inr (o2, c2) \<Rightarrow> err = None \<and> obj' = Some o2 \<and> cache ds' = Some c2)))))"
  by (auto simp: PutObjectAtomic_def store_AtomicPut_def add_cache_def SetIndex_def Let_def
           split: prod.splits sum.splits option.splits)

theorem PutObjectAtomic_nonskip_witness:
  "\<not> obj_Skip (net_obj ''a'' [1, 2] False) \<and>
   obj_Value (net_obj ''a'' [1, 2] False) = Some [1, 2] \<and>
   (case PutObjectAtomic mem_store empty_Store (Some (net_obj ''a'' [1, 2] False)) of
      (err, obj', ds') \<Rightarrow>
        err = None \<and>
        history ds' =
          [EvAtomicPut ''docker/network/v1.0/network/a/'' [1, 2] None
             (Inr \<lparr>pair_Key = ''docker/network/v1.0/network/a/'', pair_Value = [1, 2],
                   pair_LastIndex = 1\<rparr>)] \<and>
        map_option obj_Index obj' = Some 1 \<and>
        map_option (\<lambda>c. cache_version c ''docker/network/v1.0/network/a/'') (cache ds') = Some 1)"
proof -
  have h1: "\<not> obj_Skip (net_obj ''a'' [1, 2] False)"
    by (simp add: net_obj_def)
  have h2: "obj_Value (net_obj ''a'' [1, 2] False) = Some [1, 2]"
    by (simp add: net_obj_def)
  have val: "PutObjectAtomic mem_store empty_Store (Some (net_obj ''a'' [1, 2] False)) =
     (None, Some (SetIndex (net_obj ''a'' [1, 2] False) 1),
      \<lparr>scope = ''local'', store = [(''docker/network/v1.0/network/a/'', [1, 2], 1)],
       cache = Some [(''docker/network/v1.0/network/a/'',
                      \<lparr>ce_value = [1, 2], ce_version = 1, ce_scope = ''local''\<rparr>)],
       history = [EvAtomicPut ''docker/network/v1.0/network/a/'' [1, 2] None
             (Inr \<lparr>pair_Key = ''docker/network/v1.0/network/a/'', pair_Value = [1, 2],
                   pair_LastIndex = 1\<rparr>)]\<rparr>)"
    by (simp add: PutObjectAtomic_def store_AtomicPut_def add_cache_def cache_add_def
          mem_store_def mem_AtomicPut_def mem_write_def mem_pair_def empty_Store_def
          net_obj_def Key_net SetIndex_def entry_of_def)
  show ?thesis
    using PutObjectAtomic_nonskip [OF h1 h2, of mem_store empty_Store] h1 h2
    by (simp add: val SetIndex_def cache_version_def)
qed

lemma Key_a: "Key (obj_Key (net_obj ''a'' v s)) = ''docker/network/v1.0/network/a/''"
  "Key (obj_Key (stored_obj v s i)) = ''docker/network/v1.0/network/a/''"
  by (simp_all add: net_obj_def stored_obj_def Key_net)

subsection \<open>Objects that skip persistence\<close>

text \<open>
  C3: for an object with \<^verbatim>\<open>Skip() == true\<close>, \<^verbatim>\<open>PutObjectAtomic\<close> and
  \<^verbatim>\<open>DeleteObjectAtomic\<close> make no call on the backing store (the history of backend
  calls and the backend's state are what they were): the write or the delete is recorded
  in the cache only, where the object gets the cached version plus one, so such an object
  never reaches the backend's key space.
\<close>

theorem skip_no_backend:
  "obj_Skip obj \<Longrightarrow>
   (case PutObjectAtomic B ds (Some obj) of
      (err, obj', ds') \<Rightarrow>
        history ds' = history ds \<and> store ds' = store ds \<and>
        (case (obj_Value obj, cache ds) of
           (Some v, Some c) \<Rightarrow>
             (case cache_add c obj True of
                Inl e \<Rightarrow> err = Some e \<and> cache ds' = Some c
              | Inr (o2, c2) \<Rightarrow>
                  err = None \<and> obj' = Some o2 \<and> cache ds' = Some c2 \<and>
                  obj_Index o2 = cache_version c (Key (obj_Key obj)) + 1 \<and>
                  cache_version c2 (Key (obj_Key obj)) = obj_Index o2)
         | _ \<Rightarrow> cache ds' = cache ds)) \<and>
   (case DeleteObjectAtomic B ds (Some obj) of
      (err, ds') \<Rightarrow>
        history ds' = history ds \<and> store ds' = store ds \<and>
        (case cache ds of
           Some c \<Rightarrow>
             (case cache_del c obj True of
                Inl e \<Rightarrow> err = Some e \<and> cache ds' = Some c
              | Inr c2 \<Rightarrow> err = None \<and> cache ds' = Some c2 \<and>
                          map_of c2 (Key (obj_Key obj)) = None)
         | None \<Rightarrow> err = None \<and> cache ds' = None))"
  by (auto simp: PutObjectAtomic_def DeleteObjectAtomic_def add_cache_def deleteCache_def
        cache_add_def cache_del_def cache_version_def SetIndex_def entry_of_def Let_def
        update_conv' delete_conv'
      split: prod.splits sum.splits option.splits if_splits)

theorem skip_no_backend_witness:
  "obj_Skip (stored_obj [3] True 1) \<and>
   PutObjectAtomic mem_store cached_Store (Some (stored_obj [3] True 1)) =
     (None, Some (stored_obj [3] True 2),
      cached_Store\<lparr>cache := Some [(''docker/network/v1.0/network/a/'',
                     \<lparr>ce_value = [3], ce_version = 2, ce_scope = ''local''\<rparr>)]\<rparr>) \<and>
   DeleteObjectAtomic mem_store cached_Store (Some (stored_obj [3] True 1)) =
     (None, cached_Store\<lparr>cache := Some []\<rparr>) \<and>
   store cached_Store = [] \<and> history cached_Store = []"
proof -
  have h: "obj_Skip (stored_obj [3] True 1)"
    by (simp add: run_defs)
  have put: "PutObjectAtomic mem_store cached_Store (Some (stored_obj [3] True 1)) =
     (None, Some (stored_obj [3] True 2),
      cached_Store\<lparr>cache := Some [(''docker/network/v1.0/network/a/'',
                     \<lparr>ce_value = [3], ce_version = 2, ce_scope = ''local''\<rparr>)]\<rparr>)"
    by (simp add: PutObjectAtomic_def add_cache_def cache_defs run_defs Key_net)
  have del: "DeleteObjectAtomic mem_store cached_Store (Some (stored_obj [3] True 1)) =
     (None, cached_Store\<lparr>cache := Some []\<rparr>)"
    by (simp add: DeleteObjectAtomic_def deleteCache_def cache_defs run_defs Key_net)
  show ?thesis
    using skip_no_backend [OF h, where B = mem_store and ds = cached_Store] h
    by (simp add: put del) (simp add: cached_Store_def)
qed

subsection \<open>A failing backend call\<close>

text \<open>
  C4: when the \<^verbatim>\<open>AtomicPut\<close> or \<^verbatim>\<open>AtomicDelete\<close> call of a non-skip
  \<^verbatim>\<open>PutObjectAtomic\<close> or \<^verbatim>\<open>DeleteObjectAtomic\<close> returns an error, the operation
  returns that error, turned into \<open>ErrKeyModified\<close> only when it is the backend's
  \<open>ErrKeyExists\<close>; the cache is what it was and the object is returned as it was given,
  with its version: the cache changes only after the backend call has succeeded.
\<close>

theorem backend_error_leaves_cache:
  "\<not> obj_Skip obj \<Longrightarrow>
   (\<forall>v e. obj_Value obj = Some v \<and>
      fst (bs_AtomicPut B (store ds) (Key (obj_Key obj)) v
             (if obj_Exists obj
              then Some \<lparr>pair_Key = Key (obj_Key obj), pair_Value = [],
                         pair_LastIndex = obj_Index obj\<rparr>
              else None)) = Inl e \<longrightarrow>
      (case PutObjectAtomic B ds (Some obj) of
         (err, obj', ds') \<Rightarrow>
           err = Some (if e = ErrKeyExists then ErrKeyModified else e) \<and>
           obj' = Some obj \<and> cache ds' = cache ds)) \<and>
   (\<forall>e. fst (bs_AtomicDelete B (store ds) (Key (obj_Key obj))
             (Some \<lparr>pair_Key = Key (obj_Key obj), pair_Value = [],
                    pair_LastIndex = obj_Index obj\<rparr>)) = Some e \<longrightarrow>
      (case DeleteObjectAtomic B ds (Some obj) of
         (err, ds') \<Rightarrow>
           err = Some (if e = ErrKeyExists then ErrKeyModified else e) \<and>
           cache ds' = cache ds))"
  by (auto simp: PutObjectAtomic_def DeleteObjectAtomic_def store_AtomicPut_def
        store_AtomicDelete_def Let_def
      split: prod.splits sum.splits option.splits if_splits)

theorem backend_error_leaves_cache_witness:
  "\<not> obj_Skip (stored_obj [3] False 5) \<and>
   obj_Value (stored_obj [3] False 5) = Some [3] \<and>
   fst (bs_AtomicPut mem_store (store cached_Store) ''docker/network/v1.0/network/a/'' [3]
          (Some \<lparr>pair_Key = ''docker/network/v1.0/network/a/'', pair_Value = [],
                 pair_LastIndex = 5\<rparr>)) = Inl ErrKeyModified \<and>
   fst (PutObjectAtomic mem_store cached_Store (Some (stored_obj [3] False 5))) =
     Some ErrKeyModified \<and>
   fst (snd (PutObjectAtomic mem_store cached_Store (Some (stored_obj [3] False 5)))) =
     Some (stored_obj [3] False 5) \<and>
   cache (snd (snd (PutObjectAtomic mem_store cached_Store (Some (stored_obj [3] False 5))))) =
     cache cached_Store \<and>
   fst (bs_AtomicDelete mem_store (store cached_Store) ''docker/network/v1.0/network/a/''
          (Some \<lparr>pair_Key = ''docker/network/v1.0/network/a/'', pair_Value = [],
                 pair_LastIndex = 5\<rparr>)) = Some ErrKeyNotFound \<and>
   fst (DeleteObjectAtomic mem_store cached_Store (Some (stored_obj [3] False 5))) =
     Some ErrKeyNotFound \<and>
   cache (snd (DeleteObjectAtomic mem_store cached_Store (Some (stored_obj [3] False 5)))) =
     cache cached_Store"
proof -
  have h: "\<not> obj_Skip (stored_obj [3] False 5)"
    by (simp add: run_defs)
  have v: "obj_Value (stored_obj [3] False 5) = Some [3]"
    and x: "obj_Exists (stored_obj [3] False 5)"
    and i: "obj_Index (stored_obj [3] False 5) = 5"
    by (simp_all add: run_defs)
  have p: "fst (bs_AtomicPut mem_store (store cached_Store) ''docker/network/v1.0/network/a/'' [3]
          (Some \<lparr>pair_Key = ''docker/network/v1.0/network/a/'', pair_Value = [],
                 pair_LastIndex = 5\<rparr>)) = Inl ErrKeyModified"
    by (simp add: mem_defs run_defs)
  have d: "fst (bs_AtomicDelete mem_store (store cached_Store) ''docker/network/v1.0/network/a/''
          (Some \<lparr>pair_Key = ''docker/network/v1.0/network/a/'', pair_Value = [],
                 pair_LastIndex = 5\<rparr>)) = Some ErrKeyNotFound"
    by (simp add: mem_defs run_defs)
  from backend_error_leaves_cache [OF h, where B = mem_store and ds = cached_Store]
  have "(case PutObjectAtomic mem_store cached_Store (Some (stored_obj [3] False 5)) of
         (err, obj', ds') \<Rightarrow>
           err = Some ErrKeyModified \<and>
           obj' = Some (stored_obj [3] False 5) \<and> cache ds' = cache cached_Store)"
    and "(case DeleteObjectAtomic mem_store cached_Store (Some (stored_obj [3] False 5)) of
         (err, ds') \<Rightarrow> err = Some ErrKeyNotFound \<and> cache ds' = cache cached_Store)"
    using v p d by (simp_all add: Key_a x i)
  then show ?thesis
    using h v p d by (simp add: split_beta)
qed

subsection \<open>Deleting a key the cache does not hold\<close>

text \<open>
  C8: for an object whose key the cache does not hold, the cache's \<^verbatim>\<open>del\<close> succeeds
  and leaves the cache as it is, with either skip flag; so \<^verbatim>\<open>DeleteObjectAtomic\<close> of
  a skip object whose key was never cached returns no error and changes nothing.
\<close>

theorem cache_del_absent:
  "map_of c (Key (obj_Key obj)) = None \<Longrightarrow>
   cache_del c obj skipPersist = Inr c \<and>
   (obj_Skip obj \<and> cache ds = Some c \<longrightarrow> DeleteObjectAtomic B ds (Some obj) = (None, ds))"
  by (auto simp: cache_del_def DeleteObjectAtomic_def deleteCache_def)

theorem cache_del_absent_witness:
  "map_of [] (Key (obj_Key (net_obj ''a'' [1, 2] True))) = None \<and>
   cache_del [] (net_obj ''a'' [1, 2] True) True = Inr [] \<and>
   obj_Skip (net_obj ''a'' [1, 2] True) \<and> cache empty_Store = Some [] \<and>
   DeleteObjectAtomic mem_store empty_Store (Some (net_obj ''a'' [1, 2] True)) =
     (None, empty_Store)"
proof -
  have h: "map_of ([] :: cache) (Key (obj_Key (net_obj ''a'' [1, 2] True))) = None"
    by simp
  have s: "obj_Skip (net_obj ''a'' [1, 2] True)" "cache empty_Store = Some []"
    by (simp_all add: run_defs)
  show ?thesis
    using cache_del_absent [OF h, where skipPersist = True and ds = empty_Store and B = mem_store] s by simp
qed

subsection \<open>Sequencing in the cache\<close>

lemma cache_add_skip_step:
  assumes "cache_add c obj True = Inr (obj', c')"
  shows "obj_Index obj = cache_version c (Key (obj_Key obj))"
    and "obj' = SetIndex obj (cache_version c (Key (obj_Key obj)) + 1)"
    and "obj_Index obj' = cache_version c (Key (obj_Key obj)) + 1"
    and "cache_version c' (Key (obj_Key obj)) = cache_version c (Key (obj_Key obj)) + 1"
  using assms
  by (auto simp: cache_add_def cache_version_def SetIndex_def entry_of_def Let_def update_conv'
           split: if_splits)


lemma skip_adds_versions:
  "\<forall>ob\<in>set objs. Key (obj_Key ob) = k \<Longrightarrow> skip_adds c objs = Inr vs \<Longrightarrow>
   vs = map (\<lambda>i. cache_version c k + of_nat i) [1..<Suc (length objs)]"
proof (induction objs arbitrary: c vs)
  case Nil
  then show ?case by simp
next
  case (Cons obj objs)
  from Cons.prems(2) obtain obj' c' vs' where
    add: "cache_add c obj True = Inr (obj', c')" and
    rest: "skip_adds c' objs = Inr vs'" and
    vs: "vs = obj_Index obj' # vs'"
    by (auto split: sum.splits)
  have k: "Key (obj_Key obj) = k"
    using Cons.prems(1) by simp
  have i: "obj_Index obj' = cache_version c k + 1"
    and v: "cache_version c' k = cache_version c k + 1"
    using cache_add_skip_step(3,4) [OF add] by (simp_all add: k)
  have "vs' = map (\<lambda>i. cache_version c' k + of_nat i) [1..<Suc (length objs)]"
    using Cons.IH [OF _ rest] Cons.prems(1) by simp
  also have "\<dots> = map (\<lambda>i. cache_version c k + of_nat (Suc i)) [1..<Suc (length objs)]"
    by (simp add: v add.assoc)
  also have "\<dots> = map (\<lambda>i. cache_version c k + of_nat i) (map Suc [1..<Suc (length objs)])"
    by (simp add: comp_def)
  also have "\<dots> = map (\<lambda>i. cache_version c k + of_nat i) [2..<Suc (Suc (length objs))]"
    by (simp only: map_Suc_upt numeral_2_eq_2 One_nat_def)
  finally have "vs = map (\<lambda>i. cache_version c k + of_nat i) (1 # [2..<Suc (Suc (length objs))])"
    using vs i by simp
  also have "1 # [2..<Suc (Suc (length objs))] = [1..<Suc (length (obj # objs))]"
    using upt_conv_Cons [of 1 "Suc (Suc (length objs))"]
    by (simp del: upt_Suc add: numeral_2_eq_2)
  finally show ?case .
qed


lemma versions_increasing:
  "n < 2 ^ 64 \<Longrightarrow> sorted_wrt (<) (map (of_nat :: nat \<Rightarrow> index) [1..<Suc n])"
proof -
  assume n: "n < 2 ^ 64"
  have "sorted_wrt (\<lambda>i j. (of_nat i :: index) < of_nat j) [1..<Suc n]"
  proof (rule sorted_wrt_mono_rel [where P = "(<)"])
    fix i j assume "i \<in> set [1..<Suc n]" "j \<in> set [1..<Suc n]" "i < j"
    then have "i < 2 ^ 64" "j < 2 ^ 64" using n by auto
    then show "(of_nat i :: index) < of_nat j"
      using \<open>i < j\<close> by (simp add: of_nat_word_less_iff take_bit_nat_eq_self)
  next
    show "sorted_wrt (<) [1..<Suc n]" by (rule sorted_wrt_upt)
  qed
  then show ?thesis by (simp add: sorted_wrt_map)
qed


text \<open>
  C5: the cache's \<^verbatim>\<open>add\<close> with \<open>skipPersist\<close> true compares the version the caller
  claims with the version cached for the key and fails with \<open>ErrKeyModified\<close> when they
  differ; otherwise it assigns the cached version plus one, which is 1 for a key the cache
  does not hold, stamps it onto the object and caches it. So \<open>N\<close> successful skip puts
  on one key, starting from a cache that does not hold it, yield the versions 1 to \<open>N\<close>
  (as \<^verbatim>\<open>uint64\<close> values), strictly increasing for \<open>N\<close> below \<open>2 ^ 64\<close>, the range of the
  index.
\<close>

theorem cache_add_skip_sequencing:
  "(obj_Index obj \<noteq> cache_version c (Key (obj_Key obj)) \<longrightarrow>
      cache_add c obj True = Inl ErrKeyModified) \<and>
   (obj_Index obj = cache_version c (Key (obj_Key obj)) \<longrightarrow>
      (\<exists>obj' c'. cache_add c obj True = Inr (obj', c') \<and>
         obj' = SetIndex obj (cache_version c (Key (obj_Key obj)) + 1) \<and>
         obj_Index obj' = cache_version c (Key (obj_Key obj)) + 1 \<and>
         cache_version c' (Key (obj_Key obj)) = obj_Index obj' \<and>
         (map_of c (Key (obj_Key obj)) = None \<longrightarrow> obj_Index obj' = 1))) \<and>
   (\<forall>objs vs.
      (\<forall>ob\<in>set objs. Key (obj_Key ob) = k) \<and> map_of c k = None \<and>
      skip_adds c objs = Inr vs \<longrightarrow>
      vs = map of_nat [1..<Suc (length objs)] \<and>
      (length objs < 2 ^ 64 \<longrightarrow> sorted_wrt (<) vs))"
proof (intro conjI allI impI)
  assume "obj_Index obj \<noteq> cache_version c (Key (obj_Key obj))"
  then show "cache_add c obj True = Inl ErrKeyModified"
    by (simp add: cache_add_def)
next
  assume eq: "obj_Index obj = cache_version c (Key (obj_Key obj))"
  then obtain c' where
    add: "cache_add c obj True = Inr (SetIndex obj (cache_version c (Key (obj_Key obj)) + 1), c')"
    by (simp add: cache_add_def Let_def)
  have "map_of c (Key (obj_Key obj)) = None \<longrightarrow> cache_version c (Key (obj_Key obj)) + 1 = 1"
    by (simp add: cache_version_def)
  with add cache_add_skip_step(3,4) [OF add]
  show "\<exists>obj' c'. cache_add c obj True = Inr (obj', c') \<and>
         obj' = SetIndex obj (cache_version c (Key (obj_Key obj)) + 1) \<and>
         obj_Index obj' = cache_version c (Key (obj_Key obj)) + 1 \<and>
         cache_version c' (Key (obj_Key obj)) = obj_Index obj' \<and>
         (map_of c (Key (obj_Key obj)) = None \<longrightarrow> obj_Index obj' = 1)"
    by (simp add: SetIndex_def)
next
  fix objs vs
  assume a: "(\<forall>ob\<in>set objs. Key (obj_Key ob) = k) \<and> map_of c k = None \<and>
      skip_adds c objs = Inr vs"
  then have "vs = map (\<lambda>i. cache_version c k + of_nat i) [1..<Suc (length objs)]"
    using skip_adds_versions [of objs k c vs] by blast
  moreover have "cache_version c k = 0"
    using a by (simp add: cache_version_def)
  ultimately show v: "vs = map of_nat [1..<Suc (length objs)]"
    by simp
  assume "length objs < 2 ^ 64"
  then show "sorted_wrt (<) vs"
    unfolding v by (rule versions_increasing)
qed


theorem cache_add_skip_sequencing_witness:
  "cache_add [] (stored_obj [1] True 7) True = Inl ErrKeyModified \<and>
   cache_add [] (net_obj ''a'' [1] True) True =
     Inr (stored_obj [1] True 1,
          [(''docker/network/v1.0/network/a/'',
            \<lparr>ce_value = [1], ce_version = 1, ce_scope = ''local''\<rparr>)]) \<and>
   skip_adds [] [net_obj ''a'' [1] True, stored_obj [2] True 1, stored_obj [] True 2] =
     Inr [1, 2, 3] \<and>
   sorted_wrt (<) [1, 2, 3 :: index]"
proof -
  let ?objs = "[net_obj ''a'' [1] True, stored_obj [2] True 1, stored_obj [] True 2]"
  have run: "skip_adds [] ?objs = Inr [1, 2, 3]"
    by (simp add: cache_defs run_defs Key_net)
  have hyp: "(\<forall>ob\<in>set ?objs. Key (obj_Key ob) = ''docker/network/v1.0/network/a/'') \<and>
      map_of ([] :: cache) ''docker/network/v1.0/network/a/'' = None \<and>
      skip_adds [] ?objs = Inr [1, 2, 3]"
    and len: "length ?objs < 2 ^ 64"
    using run by (simp_all add: Key_a)
  have i: "obj_Index (stored_obj [1] True 7) \<noteq>
             cache_version [] (Key (obj_Key (stored_obj [1] True 7)))"
    "obj_Index (net_obj ''a'' [1] True) = cache_version [] (Key (obj_Key (net_obj ''a'' [1] True)))"
    by (simp_all add: run_defs cache_version_def)
  have one: "cache_add [] (net_obj ''a'' [1] True) True =
     Inr (stored_obj [1] True 1,
          [(''docker/network/v1.0/network/a/'',
            \<lparr>ce_value = [1], ce_version = 1, ce_scope = ''local''\<rparr>)])"
    by (simp add: cache_defs run_defs Key_net)
  show ?thesis
    using cache_add_skip_sequencing [of "stored_obj [1] True 7" "[]"] i(1)
      cache_add_skip_sequencing [of "net_obj ''a'' [1] True" "[]"
        "''docker/network/v1.0/network/a/''"] hyp len one run
    by blast
qed

subsection \<open>Enumeration through the backend\<close>

lemma ensureParent_cache:
  "ensureParent B (ds\<lparr>cache := c'\<rparr>) key =
     (fst (ensureParent B ds key), (snd (ensureParent B ds key))\<lparr>cache := c'\<rparr>)"
  by (simp add: ensureParent_def store_Exists_def store_Put_def split: prod.splits sum.splits)


lemma iterate_cache:
  "iterateKVPairsFromStore B (ds\<lparr>cache := c'\<rparr>) key ex cb acc =
     (fst (iterateKVPairsFromStore B ds key ex cb acc),
      (snd (iterateKVPairsFromStore B ds key ex cb acc))\<lparr>cache := c'\<rparr>)"
  by (simp add: iterateKVPairsFromStore_def ensureParent_cache store_List_def
           split: prod.splits sum.splits option.splits)


lemma ensureParent_history:
  "ensureParent B ds key = (None, ds1) \<Longrightarrow>
   cache ds1 = cache ds \<and>
   (\<exists>pre. history ds1 = history ds @ pre \<and>
      (pre = [EvExists key (Inr True)] \<or> pre = [EvExists key (Inr False), EvPut key [] None]))"
  by (auto simp: ensureParent_def store_Exists_def store_Put_def
           split: prod.splits sum.splits if_splits)


lemma iterate_success:
  assumes "iterateKVPairsFromStore B ds key ex cb acc = (Inr r, ds')"
  shows "\<exists>pre kvList.
           history ds' = history ds @ pre @ [EvList key (Inr kvList)] \<and>
           (pre = [EvExists key (Inr True)] \<or> pre = [EvExists key (Inr False), EvPut key [] None]) \<and>
           iterate_pairs ex cb kvList acc = Inr r \<and> obj_Constructor ex \<and> cache ds' = cache ds"
proof -
  from assms have ctor: "obj_Constructor ex"
    by (auto simp: iterateKVPairsFromStore_def split: if_splits)
  from assms ctor obtain ds1 where ep: "ensureParent B ds key = (None, ds1)"
    by (cases "ensureParent B ds key") (auto simp: iterateKVPairsFromStore_def split: option.splits)
  from assms ctor ep obtain kvList where
    l: "store_List B ds1 key = (Inr kvList, ds')" and it: "iterate_pairs ex cb kvList acc = Inr r"
    by (cases "store_List B ds1 key")
       (auto simp: iterateKVPairsFromStore_def split: sum.splits)
  from l have h: "history ds' = history ds1 @ [EvList key (Inr kvList)]" "cache ds' = cache ds1"
    by (auto simp: store_List_def split: prod.splits)
  from ensureParent_history [OF ep] h it ctor show ?thesis
    by auto
qed


lemma iterate_pairs_dom:
  "iterate_pairs ex Map_cb kvList acc = Inr m \<Longrightarrow>
   dom m = dom acc \<union> (\<lambda>p. trim_slash (pair_Key p)) ` {p \<in> set kvList. pair_Value p \<noteq> []}"
  by (induction kvList arbitrary: acc) (auto simp: Map_cb_def split: if_splits sum.splits)


lemma iterate_pairs_nonempty:
  "iterate_pairs ex cb kvList acc =
   iterate_pairs ex cb (filter (\<lambda>p. pair_Value p \<noteq> []) kvList) acc"
  by (induction kvList arbitrary: acc) (auto split: sum.splits)


lemma iterate_pairs_map_values:
  "iterate_pairs ex Map_cb kvList acc = Inr m \<Longrightarrow>
   m k = Some ob \<Longrightarrow>
   acc k = Some ob \<or>
   (\<exists>p\<in>set kvList. pair_Value p \<noteq> [] \<and> k = trim_slash (pair_Key p) \<and>
      obj_Value ob = Some (pair_Value p) \<and> obj_Index ob = pair_LastIndex p)"
proof (induction kvList arbitrary: acc)
  case Nil
  then show ?case by simp
next
  case (Cons p ps)
  show ?case
  proof (cases "pair_Value p = []")
    case True
    with Cons show ?thesis by auto
  next
    case False
    with Cons.prems obtain dstO where
      sv: "SetValue (ctor_New ex) (pair_Value p) = Inr dstO" and
      rest: "iterate_pairs ex Map_cb ps
               (Map_cb (pair_Key p) (SetIndex dstO (pair_LastIndex p)) acc) = Inr m"
      by (auto split: sum.splits)
    from sv have d: "obj_Value (SetIndex dstO (pair_LastIndex p)) = Some (pair_Value p)"
      "obj_Index (SetIndex dstO (pair_LastIndex p)) = pair_LastIndex p"
      by (auto simp: SetValue_def SetIndex_def split: if_splits)
    from Cons.IH [OF rest Cons.prems(2)] d False show ?thesis
      by (auto simp: Map_cb_def split: if_splits)
  qed
qed


lemma iterate_pairs_list_values:
  "iterate_pairs ex List_cb kvList acc = Inr objs \<Longrightarrow>
   map obj_Value objs =
     map obj_Value acc @ map (\<lambda>p. Some (pair_Value p)) (filter (\<lambda>p. pair_Value p \<noteq> []) kvList) \<and>
   map obj_Index objs =
     map obj_Index acc @ map pair_LastIndex (filter (\<lambda>p. pair_Value p \<noteq> []) kvList)"
proof (induction kvList arbitrary: acc)
  case Nil
  then show ?case by simp
next
  case (Cons p ps)
  show ?case
  proof (cases "pair_Value p = []")
    case True
    with Cons show ?thesis by auto
  next
    case False
    with Cons.prems obtain dstO where
      sv: "SetValue (ctor_New ex) (pair_Value p) = Inr dstO" and
      rest: "iterate_pairs ex List_cb ps
               (List_cb (pair_Key p) (SetIndex dstO (pair_LastIndex p)) acc) = Inr objs"
      by (auto split: sum.splits)
    from sv have d: "obj_Value (SetIndex dstO (pair_LastIndex p)) = Some (pair_Value p)"
      "obj_Index (SetIndex dstO (pair_LastIndex p)) = pair_LastIndex p"
      by (auto simp: SetValue_def SetIndex_def split: if_splits)
    from Cons.IH [OF rest] d False show ?thesis
      by (simp add: List_cb_def)
  qed
qed


lemma Map_disk_Store:
  "Map mem_store disk_Store ''docker/network/v1.0/network/'' (net_obj [] [] False) =
     (Inr (Map_cb ''docker/network/v1.0/network/a/''
             ((net_obj [] [] False)\<lparr>obj_Value := Some [1, 2], obj_Index := 1, obj_Exists := True\<rparr>)
             Map.empty),
      disk_Store
        \<lparr>store := [(''docker/network/v1.0/network/a/'', [1, 2], 1),
                   (''docker/network/v1.0/network/'', [], 1)],
         history :=
           [EvExists ''docker/network/v1.0/network/'' (Inr False),
            EvPut ''docker/network/v1.0/network/'' [] None,
            EvList ''docker/network/v1.0/network/''
              (Inr [\<lparr>pair_Key = ''docker/network/v1.0/network/a/'', pair_Value = [1, 2],
                      pair_LastIndex = 1\<rparr>,
                    \<lparr>pair_Key = ''docker/network/v1.0/network/'', pair_Value = [],
                      pair_LastIndex = 1\<rparr>])]\<rparr>)"
  by (simp add: Map_def iterateKVPairsFromStore_def ensureParent_def store_defs mem_defs run_defs
        cache_defs ctor_New_def)


lemma List_nocache_Store:
  "List mem_store nocache_Store ''docker/network/v1.0/network/'' (net_obj [] [] False) =
     (Inr [(net_obj [] [] False)\<lparr>obj_Value := Some [1, 2], obj_Index := 1, obj_Exists := True\<rparr>],
      nocache_Store
        \<lparr>store := [(''docker/network/v1.0/network/a/'', [1, 2], 1),
                   (''docker/network/v1.0/network/'', [], 1)],
         history :=
           [EvExists ''docker/network/v1.0/network/'' (Inr False),
            EvPut ''docker/network/v1.0/network/'' [] None,
            EvList ''docker/network/v1.0/network/''
              (Inr [\<lparr>pair_Key = ''docker/network/v1.0/network/a/'', pair_Value = [1, 2],
                      pair_LastIndex = 1\<rparr>,
                    \<lparr>pair_Key = ''docker/network/v1.0/network/'', pair_Value = [],
                      pair_LastIndex = 1\<rparr>])]\<rparr>)"
  by (simp add: List_def iterateKVPairsFromStore_def ensureParent_def store_defs mem_defs run_defs
        cache_defs ctor_New_def List_cb_def)


lemma trim_slash_a: "trim_slash ''docker/network/v1.0/network/a/'' = ''docker/network/v1.0/network/a''"
  by (simp add: trim_slash_def)


lemma Map_backend_calls:
  "obj_Constructor ex \<Longrightarrow>
   (case bs_Exists B (store ds) key of
      (Inl e, b1) \<Rightarrow>
        Map B ds key ex =
          (Inl e, ds\<lparr>store := b1, history := history ds @ [EvExists key (Inl e)]\<rparr>)
    | (Inr exists, b1) \<Rightarrow>
        (case (if exists then (None, b1) else bs_Put B b1 key []) of
           (Some e, b2) \<Rightarrow>
             Map B ds key ex =
               (Inl e, ds\<lparr>store := b2,
                          history := history ds @ [EvExists key (Inr False), EvPut key [] (Some e)]\<rparr>)
         | (None, b2) \<Rightarrow>
             (case bs_List B b2 key of
                (r, b3) \<Rightarrow>
                  Map B ds key ex =
                    (case r of
                       Inl e \<Rightarrow> Inl e
                     | Inr kvList \<Rightarrow> iterate_pairs ex Map_cb kvList Map.empty,
                     ds\<lparr>store := b3,
                        history := history ds @
                          (if exists then [EvExists key (Inr True)]
                           else [EvExists key (Inr False), EvPut key [] None]) @
                          [EvList key r]\<rparr>))))"
  by (auto simp: Map_def iterateKVPairsFromStore_def ensureParent_def store_defs
           split: prod.splits sum.splits option.splits)

lemma Map_needs_constructor: "fst (Map B ds key ex) = Inr m \<Longrightarrow> obj_Constructor ex"
  by (auto simp: Map_def iterateKVPairsFromStore_def split: if_splits)

lemma Map_success_calls:
  assumes m: "fst (Map B ds key ex) = Inr m"
  shows "\<exists>exists b1 b2 b3 kvList.
           bs_Exists B (store ds) key = (Inr exists, b1) \<and>
           (if exists then b2 = b1 else bs_Put B b1 key [] = (None, b2)) \<and>
           bs_List B b2 key = (Inr kvList, b3) \<and>
           store (snd (Map B ds key ex)) = b3 \<and>
           cache (snd (Map B ds key ex)) = cache ds \<and>
           history (snd (Map B ds key ex)) =
             history ds @
             (if exists then [EvExists key (Inr True)]
              else [EvExists key (Inr False), EvPut key [] None]) @
             [EvList key (Inr kvList)] \<and>
           iterate_pairs ex Map_cb kvList Map.empty = Inr m \<and>
           dom m = (\<lambda>p. trim_slash (pair_Key p)) ` {p \<in> set kvList. pair_Value p \<noteq> []}"
proof -
  note calls = Map_backend_calls [OF Map_needs_constructor [OF m], of B ds key]
  obtain r1 b1 where e: "bs_Exists B (store ds) key = (r1, b1)"
    by (cases "bs_Exists B (store ds) key")
  from calls e m obtain exists where r1: "r1 = Inr exists"
    by (cases r1) auto
  obtain r2 b2 where p: "(if exists then (None, b1) else bs_Put B b1 key []) = (r2, b2)"
    by (cases "if exists then (None, b1) else bs_Put B b1 key []")
  from calls e r1 p m have r2: "r2 = None"
    by (cases r2) auto
  obtain r3 b3 where l: "bs_List B b2 key = (r3, b3)"
    by (cases "bs_List B b2 key")
  from calls e r1 p r2 l have res: "Map B ds key ex =
      (case r3 of Inl e \<Rightarrow> Inl e | Inr kvList \<Rightarrow> iterate_pairs ex Map_cb kvList Map.empty,
       ds\<lparr>store := b3,
          history := history ds @
            (if exists then [EvExists key (Inr True)]
             else [EvExists key (Inr False), EvPut key [] None]) @ [EvList key r3]\<rparr>)"
    by simp
  with m obtain kvList where r3: "r3 = Inr kvList"
    and it: "iterate_pairs ex Map_cb kvList Map.empty = Inr m"
    by (cases r3) auto
  have put: "if exists then b2 = b1 else bs_Put B b1 key [] = (None, b2)"
    using p r2 by (auto split: if_splits)
  from iterate_pairs_dom [OF it]
  have d: "dom m = (\<lambda>p. trim_slash (pair_Key p)) ` {p \<in> set kvList. pair_Value p \<noteq> []}"
    by simp
  show ?thesis
    using e r1 put l r3 it d
    by (intro exI [of _ exists] exI [of _ b1] exI [of _ b2] exI [of _ b3] exI [of _ kvList])
       (simp add: res)
qed

text \<open>
  C6: \<^verbatim>\<open>Map\<close> never consults the cache. Its result and what it does to the backend
  are the same whatever the Store's cache is, and the cache stays as it is. For an
  exemplar with a constructor, \<^verbatim>\<open>Map\<close> is determined by the backend's own answers: it
  calls \<^verbatim>\<open>Exists\<close> on the key in the backend's current state; if that fails it returns
  the error; if the key is absent it calls \<^verbatim>\<open>Put\<close> of the key with an empty value on
  the state \<^verbatim>\<open>Exists\<close> left and returns its error if it fails; then it calls \<^verbatim>\<open>List\<close>
  on the state so reached, and the Store's backend is the state \<^verbatim>\<open>List\<close> left. Whenever
  \<^verbatim>\<open>Map\<close> returns an association, these calls all succeeded, the association is what
  the loop builds from the entries \<^verbatim>\<open>List\<close> answered, and its keys are the listed keys
  (of the entries with a value) with the slashes at both ends trimmed. \<^verbatim>\<open>List\<close> and
  \<^verbatim>\<open>GetObject\<close> differ: with a cache they answer from it and leave the backend alone.
\<close>

theorem Map_bypasses_cache:
  "fst (Map B (ds\<lparr>cache := c'\<rparr>) key ex) = fst (Map B ds key ex) \<and>
   snd (Map B (ds\<lparr>cache := c'\<rparr>) key ex) = (snd (Map B ds key ex))\<lparr>cache := c'\<rparr> \<and>
   (obj_Constructor ex \<longrightarrow>
      (case bs_Exists B (store ds) key of
         (Inl e, b1) \<Rightarrow>
           Map B ds key ex =
             (Inl e, ds\<lparr>store := b1, history := history ds @ [EvExists key (Inl e)]\<rparr>)
       | (Inr exists, b1) \<Rightarrow>
           (case (if exists then (None, b1) else bs_Put B b1 key []) of
              (Some e, b2) \<Rightarrow>
                Map B ds key ex =
                  (Inl e, ds\<lparr>store := b2,
                             history := history ds @
                               [EvExists key (Inr False), EvPut key [] (Some e)]\<rparr>)
            | (None, b2) \<Rightarrow>
                (case bs_List B b2 key of
                   (r, b3) \<Rightarrow>
                     Map B ds key ex =
                       (case r of
                          Inl e \<Rightarrow> Inl e
                        | Inr kvList \<Rightarrow> iterate_pairs ex Map_cb kvList Map.empty,
                        ds\<lparr>store := b3,
                           history := history ds @
                             (if exists then [EvExists key (Inr True)]
                              else [EvExists key (Inr False), EvPut key [] None]) @
                             [EvList key r]\<rparr>))))) \<and>
   (\<forall>m. fst (Map B ds key ex) = Inr m \<longrightarrow>
      (\<exists>exists b1 b2 b3 kvList.
         bs_Exists B (store ds) key = (Inr exists, b1) \<and>
         (if exists then b2 = b1 else bs_Put B b1 key [] = (None, b2)) \<and>
         bs_List B b2 key = (Inr kvList, b3) \<and>
         store (snd (Map B ds key ex)) = b3 \<and>
         cache (snd (Map B ds key ex)) = cache ds \<and>
         history (snd (Map B ds key ex)) =
           history ds @
           (if exists then [EvExists key (Inr True)]
            else [EvExists key (Inr False), EvPut key [] None]) @
           [EvList key (Inr kvList)] \<and>
         iterate_pairs ex Map_cb kvList Map.empty = Inr m \<and>
         dom m = (\<lambda>p. trim_slash (pair_Key p)) ` {p \<in> set kvList. pair_Value p \<noteq> []})) \<and>
   (\<forall>c. cache ds = Some c \<longrightarrow>
      List B ds key ex = (cache_list c ex, ds) \<and>
      snd (snd (GetObject B ds key obj)) = ds \<and>
      fst (GetObject B ds key obj) = (case cache_get c obj of Inl e \<Rightarrow> Some e | Inr ob \<Rightarrow> None))"
proof (intro conjI allI impI)
  show "fst (Map B (ds\<lparr>cache := c'\<rparr>) key ex) = fst (Map B ds key ex)"
    by (simp add: Map_def iterate_cache)
  show "snd (Map B (ds\<lparr>cache := c'\<rparr>) key ex) = (snd (Map B ds key ex))\<lparr>cache := c'\<rparr>"
    by (simp add: Map_def iterate_cache)
next
  assume "obj_Constructor ex"
  then show "case bs_Exists B (store ds) key of
         (Inl e, b1) \<Rightarrow>
           Map B ds key ex =
             (Inl e, ds\<lparr>store := b1, history := history ds @ [EvExists key (Inl e)]\<rparr>)
       | (Inr exists, b1) \<Rightarrow>
           (case (if exists then (None, b1) else bs_Put B b1 key []) of
              (Some e, b2) \<Rightarrow>
                Map B ds key ex =
                  (Inl e, ds\<lparr>store := b2,
                             history := history ds @
                               [EvExists key (Inr False), EvPut key [] (Some e)]\<rparr>)
            | (None, b2) \<Rightarrow>
                (case bs_List B b2 key of
                   (r, b3) \<Rightarrow>
                     Map B ds key ex =
                       (case r of
                          Inl e \<Rightarrow> Inl e
                        | Inr kvList \<Rightarrow> iterate_pairs ex Map_cb kvList Map.empty,
                        ds\<lparr>store := b3,
                           history := history ds @
                             (if exists then [EvExists key (Inr True)]
                              else [EvExists key (Inr False), EvPut key [] None]) @
                             [EvList key r]\<rparr>)))"
    by (rule Map_backend_calls)
next
  fix m assume "fst (Map B ds key ex) = Inr m"
  then show "\<exists>exists b1 b2 b3 kvList.
         bs_Exists B (store ds) key = (Inr exists, b1) \<and>
         (if exists then b2 = b1 else bs_Put B b1 key [] = (None, b2)) \<and>
         bs_List B b2 key = (Inr kvList, b3) \<and>
         store (snd (Map B ds key ex)) = b3 \<and>
         cache (snd (Map B ds key ex)) = cache ds \<and>
         history (snd (Map B ds key ex)) =
           history ds @
           (if exists then [EvExists key (Inr True)]
            else [EvExists key (Inr False), EvPut key [] None]) @
           [EvList key (Inr kvList)] \<and>
         iterate_pairs ex Map_cb kvList Map.empty = Inr m \<and>
         dom m = (\<lambda>p. trim_slash (pair_Key p)) ` {p \<in> set kvList. pair_Value p \<noteq> []}"
    by (rule Map_success_calls)
next
  fix c assume c: "cache ds = Some c"
  then show "List B ds key ex = (cache_list c ex, ds)"
    by (simp add: List_def)
  from c show "snd (snd (GetObject B ds key obj)) = ds"
    by (simp add: GetObject_def split: sum.splits)
  from c show "fst (GetObject B ds key obj) =
      (case cache_get c obj of Inl e \<Rightarrow> Some e | Inr ob \<Rightarrow> None)"
    by (simp add: GetObject_def split: sum.splits)
qed

theorem Map_bypasses_cache_witness:
  "cache disk_Store = Some [] \<and>
   List mem_store disk_Store ''docker/network/v1.0/network/'' (net_obj [] [] False) =
     (Inr [], disk_Store) \<and>
   fst (GetObject mem_store disk_Store ''docker/network/v1.0/network/'' (net_obj ''a'' [] False)) =
     Some ErrKeyNotFound \<and>
   (\<exists>m. fst (Map mem_store disk_Store ''docker/network/v1.0/network/'' (net_obj [] [] False)) =
          Inr m \<and>
        dom m = {''docker/network/v1.0/network/a''}) \<and>
   bs_Exists mem_store (store disk_Store) ''docker/network/v1.0/network/'' =
     (Inr False, store disk_Store) \<and>
   store (snd (Map mem_store disk_Store ''docker/network/v1.0/network/'' (net_obj [] [] False))) =
     [(''docker/network/v1.0/network/a/'', [1, 2], 1), (''docker/network/v1.0/network/'', [], 1)] \<and>
   cache (snd (Map mem_store disk_Store ''docker/network/v1.0/network/'' (net_obj [] [] False))) =
     Some []"
proof -
  let ?ex = "net_obj [] [] False"
  let ?m = "Map_cb ''docker/network/v1.0/network/a/''
             (?ex\<lparr>obj_Value := Some [1, 2], obj_Index := 1, obj_Exists := True\<rparr>) Map.empty"
  note inst = Map_bypasses_cache [where B = mem_store and ds = disk_Store
      and key = "''docker/network/v1.0/network/''"
      and ex = ?ex and c' = None and obj = "net_obj ''a'' [] False"]
  have c: "cache disk_Store = Some []"
    by (simp add: run_defs)
  have m: "fst (Map mem_store disk_Store ''docker/network/v1.0/network/'' ?ex) = Inr ?m"
    by (simp add: Map_disk_Store)
  have ex: "bs_Exists mem_store (store disk_Store) ''docker/network/v1.0/network/'' =
     (Inr False, store disk_Store)"
    by (simp add: mem_defs run_defs)
  from inst [THEN conjunct2, THEN conjunct2, THEN conjunct2, THEN conjunct1, rule_format, OF m]
  obtain exists b1 b2 b3 kvList where
    e: "bs_Exists mem_store (store disk_Store) ''docker/network/v1.0/network/'' = (Inr exists, b1)"
    and p: "if exists then b2 = b1
            else bs_Put mem_store b1 ''docker/network/v1.0/network/'' [] = (None, b2)"
    and l: "bs_List mem_store b2 ''docker/network/v1.0/network/'' = (Inr kvList, b3)"
    and st: "store (snd (Map mem_store disk_Store ''docker/network/v1.0/network/'' ?ex)) = b3"
    and d: "dom ?m = (\<lambda>p. trim_slash (pair_Key p)) ` {p \<in> set kvList. pair_Value p \<noteq> []}"
    by (elim exE conjE)
  from e ex have x: "exists = False" "b1 = store disk_Store"
    by simp_all
  with p have b2: "b2 = [(''docker/network/v1.0/network/a/'', [1, 2], 1),
                         (''docker/network/v1.0/network/'', [], 1)]"
    by (simp add: mem_defs run_defs)
  with l have kv: "kvList = [\<lparr>pair_Key = ''docker/network/v1.0/network/a/'', pair_Value = [1, 2],
                      pair_LastIndex = 1\<rparr>,
                    \<lparr>pair_Key = ''docker/network/v1.0/network/'', pair_Value = [],
                      pair_LastIndex = 1\<rparr>]"
    and b3: "b3 = b2"
    by (auto simp: mem_defs)
  have sel: "{p \<in> set kvList. pair_Value p \<noteq> []} =
      {\<lparr>pair_Key = ''docker/network/v1.0/network/a/'', pair_Value = [1, 2], pair_LastIndex = 1\<rparr>}"
    unfolding kv by auto
  have dom: "dom ?m = {''docker/network/v1.0/network/a''}"
    unfolding d sel by (simp add: trim_slash_a)
  have s: "store (snd (Map mem_store disk_Store ''docker/network/v1.0/network/'' ?ex)) =
     [(''docker/network/v1.0/network/a/'', [1, 2], 1), (''docker/network/v1.0/network/'', [], 1)]"
    using st b3 b2 by simp
  have l: "List mem_store disk_Store ''docker/network/v1.0/network/'' ?ex = (Inr [], disk_Store)"
    using inst [THEN conjunct2, THEN conjunct2, THEN conjunct2, THEN conjunct2, rule_format, OF c]
    by (simp add: cache_list_def net_obj_def)
  have g: "fst (GetObject mem_store disk_Store ''docker/network/v1.0/network/''
             (net_obj ''a'' [] False)) = Some ErrKeyNotFound"
    using inst [THEN conjunct2, THEN conjunct2, THEN conjunct2, THEN conjunct2, rule_format, OF c]
    by (simp add: cache_get_def)
  have k: "cache (snd (Map mem_store disk_Store ''docker/network/v1.0/network/'' ?ex)) = Some []"
    by (simp add: Map_disk_Store c)
  show ?thesis
    by (intro conjI exI [of _ ?m]) (fact c l g m dom ex s k)+
qed

text \<open>
  C7: for an exemplar that does not implement \<^verbatim>\<open>KVConstructor\<close>, \<^verbatim>\<open>List\<close> and
  \<^verbatim>\<open>Map\<close> return an error and no result, with a cache and without one, and leave the
  Store as it is.
\<close>

theorem no_constructor_fails:
  "\<not> obj_Constructor ex \<Longrightarrow>
   (\<exists>e. fst (List B ds key ex) = Inl e) \<and> snd (List B ds key ex) = ds \<and>
   (cache ds = None \<longrightarrow>
      fst (List B ds key ex) =
        Inl (ErrorString
              ''error listing objects, object does not implement KVConstructor interface'')) \<and>
   Map B ds key ex =
     (Inl (ErrorString
            ''error listing objects, object does not implement KVConstructor interface''), ds)"
  by (auto simp: List_def Map_def iterateKVPairsFromStore_def cache_list_def
           split: option.splits)


theorem no_constructor_fails_witness:
  "\<not> obj_Constructor ((net_obj [] [] False)\<lparr>obj_Constructor := False\<rparr>) \<and>
   (\<exists>e. fst (List mem_store disk_Store ''docker/network/v1.0/network/''
                ((net_obj [] [] False)\<lparr>obj_Constructor := False\<rparr>)) = Inl e) \<and>
   fst (List mem_store nocache_Store ''docker/network/v1.0/network/''
          ((net_obj [] [] False)\<lparr>obj_Constructor := False\<rparr>)) =
     Inl (ErrorString
           ''error listing objects, object does not implement KVConstructor interface'') \<and>
   Map mem_store disk_Store ''docker/network/v1.0/network/'' ((net_obj [] [] False)\<lparr>obj_Constructor := False\<rparr>) =
     (Inl (ErrorString
            ''error listing objects, object does not implement KVConstructor interface''),
      disk_Store)"
proof -
  have h: "\<not> obj_Constructor ((net_obj [] [] False)\<lparr>obj_Constructor := False\<rparr>)"
    by simp
  have n: "cache nocache_Store = None"
    by (simp add: run_defs)
  show ?thesis
    using no_constructor_fails [OF h, where B = mem_store and ds = disk_Store and key = "''docker/network/v1.0/network/''"]
      no_constructor_fails [OF h, where B = mem_store and ds = nocache_Store and key = "''docker/network/v1.0/network/''"]
      n h
    by blast
qed


text \<open>
  C9: the loop shared by \<^verbatim>\<open>List\<close> and \<^verbatim>\<open>Map\<close> skips every listed entry whose value
  is empty: it computes what it would compute on the entries with a value alone. So the
  objects \<^verbatim>\<open>List\<close> returns from the backend are, in order, one per listed entry with a
  value, hydrated with that value and version, and every object in the association
  \<^verbatim>\<open>Map\<close> returns comes from a listed entry with a value. The placeholder that
  \<^verbatim>\<open>ensureParent\<close> writes for the prefix key has an empty value and is never among them.
\<close>

theorem enumeration_omits_empty:
  "iterate_pairs ex cb kvList acc =
     iterate_pairs ex cb (filter (\<lambda>p. pair_Value p \<noteq> []) kvList) acc \<and>
   (\<forall>objs. cache ds = None \<and> fst (List B ds key ex) = Inr objs \<longrightarrow>
      (\<exists>pre kvList.
         history (snd (List B ds key ex)) = history ds @ pre @ [EvList key (Inr kvList)] \<and>
         map obj_Value objs =
           map (\<lambda>p. Some (pair_Value p)) (filter (\<lambda>p. pair_Value p \<noteq> []) kvList) \<and>
         map obj_Index objs =
           map pair_LastIndex (filter (\<lambda>p. pair_Value p \<noteq> []) kvList))) \<and>
   (\<forall>m. fst (Map B ds key ex) = Inr m \<longrightarrow>
      (\<exists>pre kvList.
         history (snd (Map B ds key ex)) = history ds @ pre @ [EvList key (Inr kvList)] \<and>
         (\<forall>k ob. m k = Some ob \<longrightarrow>
            (\<exists>p\<in>set kvList. pair_Value p \<noteq> [] \<and> k = trim_slash (pair_Key p) \<and>
               obj_Value ob = Some (pair_Value p) \<and> obj_Index ob = pair_LastIndex p))))"
proof (intro conjI allI impI)
  show "iterate_pairs ex cb kvList acc =
     iterate_pairs ex cb (filter (\<lambda>p. pair_Value p \<noteq> []) kvList) acc"
    by (rule iterate_pairs_nonempty)
next
  fix objs assume "cache ds = None \<and> fst (List B ds key ex) = Inr objs"
  then have "iterateKVPairsFromStore B ds key ex List_cb [] = (Inr objs, snd (List B ds key ex))"
    by (clarsimp simp: List_def prod_eq_iff)
  from iterate_success [OF this] obtain pre kvList where
    h: "history (snd (List B ds key ex)) = history ds @ pre @ [EvList key (Inr kvList)]"
    and it: "iterate_pairs ex List_cb kvList [] = Inr objs"
    by blast
  from iterate_pairs_list_values [OF it] h
  show "\<exists>pre kvList.
         history (snd (List B ds key ex)) = history ds @ pre @ [EvList key (Inr kvList)] \<and>
         map obj_Value objs =
           map (\<lambda>p. Some (pair_Value p)) (filter (\<lambda>p. pair_Value p \<noteq> []) kvList) \<and>
         map obj_Index objs =
           map pair_LastIndex (filter (\<lambda>p. pair_Value p \<noteq> []) kvList)"
    by auto
next
  fix m assume "fst (Map B ds key ex) = Inr m"
  then have "iterateKVPairsFromStore B ds key ex Map_cb Map.empty = (Inr m, snd (Map B ds key ex))"
    by (simp add: Map_def prod_eq_iff)
  from iterate_success [OF this] obtain pre kvList where
    h: "history (snd (Map B ds key ex)) = history ds @ pre @ [EvList key (Inr kvList)]"
    and it: "iterate_pairs ex Map_cb kvList Map.empty = Inr m"
    by blast
  from iterate_pairs_map_values [OF it] h
  show "\<exists>pre kvList.
         history (snd (Map B ds key ex)) = history ds @ pre @ [EvList key (Inr kvList)] \<and>
         (\<forall>k ob. m k = Some ob \<longrightarrow>
            (\<exists>p\<in>set kvList. pair_Value p \<noteq> [] \<and> k = trim_slash (pair_Key p) \<and>
               obj_Value ob = Some (pair_Value p) \<and> obj_Index ob = pair_LastIndex p))"
    by (intro exI [of _ pre] exI [of _ kvList]) auto
qed


theorem enumeration_omits_empty_witness:
  "cache nocache_Store = None \<and>
   history (snd (List mem_store nocache_Store ''docker/network/v1.0/network/'' (net_obj [] [] False))) =
     [EvExists ''docker/network/v1.0/network/'' (Inr False),
      EvPut ''docker/network/v1.0/network/'' [] None,
      EvList ''docker/network/v1.0/network/''
        (Inr [\<lparr>pair_Key = ''docker/network/v1.0/network/a/'', pair_Value = [1, 2],
                pair_LastIndex = 1\<rparr>,
              \<lparr>pair_Key = ''docker/network/v1.0/network/'', pair_Value = [],
                pair_LastIndex = 1\<rparr>])] \<and>
   (\<exists>objs. fst (List mem_store nocache_Store ''docker/network/v1.0/network/'' (net_obj [] [] False)) = Inr objs \<and>
      map obj_Value objs = [Some [1, 2]] \<and> map obj_Index objs = [1])"
proof -
  let ?ex = "net_obj [] [] False"
  let ?objs = "[?ex\<lparr>obj_Value := Some [1, 2], obj_Index := 1, obj_Exists := True\<rparr>]"
  have c: "cache nocache_Store = None"
    by (simp add: run_defs)
  have l: "fst (List mem_store nocache_Store ''docker/network/v1.0/network/'' ?ex) = Inr ?objs"
    by (simp add: List_nocache_Store)
  have hist: "history (snd (List mem_store nocache_Store ''docker/network/v1.0/network/'' ?ex)) =
     [EvExists ''docker/network/v1.0/network/'' (Inr False),
      EvPut ''docker/network/v1.0/network/'' [] None,
      EvList ''docker/network/v1.0/network/''
        (Inr [\<lparr>pair_Key = ''docker/network/v1.0/network/a/'', pair_Value = [1, 2],
                pair_LastIndex = 1\<rparr>,
              \<lparr>pair_Key = ''docker/network/v1.0/network/'', pair_Value = [],
                pair_LastIndex = 1\<rparr>])]"
    by (simp add: List_nocache_Store)
  note inst = enumeration_omits_empty [where B = mem_store and ds = nocache_Store
      and key = "''docker/network/v1.0/network/''" and ex = ?ex and cb = List_cb
      and kvList = "[]" and acc = "[]"]
  have "\<exists>pre kvList.
      history (snd (List mem_store nocache_Store ''docker/network/v1.0/network/'' ?ex)) =
        history nocache_Store @ pre @ [EvList ''docker/network/v1.0/network/'' (Inr kvList)] \<and>
      map obj_Value ?objs =
        map (\<lambda>p. Some (pair_Value p)) (filter (\<lambda>p. pair_Value p \<noteq> []) kvList) \<and>
      map obj_Index ?objs = map pair_LastIndex (filter (\<lambda>p. pair_Value p \<noteq> []) kvList)"
    by (rule inst [THEN conjunct2, THEN conjunct1, rule_format, OF conjI [OF c l]])
  then obtain pre kvList where
    h: "history (snd (List mem_store nocache_Store ''docker/network/v1.0/network/'' ?ex)) =
          history nocache_Store @ pre @ [EvList ''docker/network/v1.0/network/'' (Inr kvList)]"
    and v: "map obj_Value ?objs =
           map (\<lambda>p. Some (pair_Value p)) (filter (\<lambda>p. pair_Value p \<noteq> []) kvList)"
           "map obj_Index ?objs = map pair_LastIndex (filter (\<lambda>p. pair_Value p \<noteq> []) kvList)"
    by (elim exE conjE)
  from h have kv: "kvList = [\<lparr>pair_Key = ''docker/network/v1.0/network/a/'', pair_Value = [1, 2],
                      pair_LastIndex = 1\<rparr>,
                    \<lparr>pair_Key = ''docker/network/v1.0/network/'', pair_Value = [],
                      pair_LastIndex = 1\<rparr>]"
    by (simp add: hist)
  have v1: "map obj_Value ?objs = [Some [1, 2]]"
    unfolding v(1) kv by simp
  have v2: "map obj_Index ?objs = [1]"
    unfolding v(2) kv by simp
  show ?thesis
    by (intro conjI exI [of _ ?objs]) (fact c l hist v1 v2)+
qed


subsection \<open>Construction\<close>

text \<open>
  C10: \<^verbatim>\<open>New\<close> fails with the error "unsupported KV store" for every provider other
  than boltdb, once the default local configuration has replaced a configuration whose
  provider or address is empty; and every Store it constructs has the local scope and a
  cache, so that \<^verbatim>\<open>Scope\<close> returns "local" and \<^verbatim>\<open>GetObject\<close> and \<^verbatim>\<open>List\<close> answer
  from the cache.
\<close>

theorem New_boltdb_only:
  "(Provider (Client cfg) \<noteq> [] \<and> Address (Client cfg) \<noteq> [] \<and> Provider (Client cfg) \<noteq> BOLTDB \<longrightarrow>
      New boltdb_New cfg = Inl (ErrorString ''unsupported KV store'')) \<and>
   (\<forall>ds. New boltdb_New cfg = Inr ds \<longrightarrow>
      scope ds = scope_Local \<and> Scope ds = ''local'' \<and>
      (\<exists>c. cache ds = Some c \<and>
         (\<forall>B key obj. List B ds key obj = (cache_list c obj, ds) \<and>
            GetObject B ds key obj =
              (case cache_get c obj of
                 Inl err \<Rightarrow> (Some err, obj, ds)
               | Inr obj' \<Rightarrow> (None, obj', ds)))))"
  by (auto simp: New_def newClient_def newCache_def Scope_def scope_Local_def List_def
        GetObject_def Let_def
      split: if_splits sum.splits)


theorem New_boltdb_only_witness:
  "New (\<lambda>addr config. Inr ([] :: mem))
     \<lparr>Client = \<lparr>Provider = ''etcd'', Address = ''10.0.0.1:2379'', Config = None\<rparr>\<rparr> =
     Inl (ErrorString ''unsupported KV store'') \<and>
   New (\<lambda>addr config. Inr ([] :: mem))
     \<lparr>Client = \<lparr>Provider = ''etcd'', Address = [], Config = None\<rparr>\<rparr> = Inr empty_Store \<and>
   scope empty_Store = scope_Local \<and> Scope empty_Store = ''local'' \<and>
   cache empty_Store = Some [] \<and>
   List mem_store empty_Store ''docker/network/v1.0/network/'' (net_obj [] [] False) = (Inr [], empty_Store)"
proof -
  let ?f = "\<lambda>(addr :: string list) (config :: Config). (Inr [] :: error + mem)"
  have n: "New ?f \<lparr>Client = \<lparr>Provider = ''etcd'', Address = [], Config = None\<rparr>\<rparr> = Inr empty_Store"
    by (simp add: New_def newClient_def DefaultScope_def BOLTDB_def newCache_def scope_Local_def
          empty_Store_def)
  have p: "Provider (Client \<lparr>Client = \<lparr>Provider = ''etcd'', Address = ''10.0.0.1:2379'',
              Config = None\<rparr>\<rparr>) \<noteq> [] \<and>
           Address (Client \<lparr>Client = \<lparr>Provider = ''etcd'', Address = ''10.0.0.1:2379'',
              Config = None\<rparr>\<rparr>) \<noteq> [] \<and>
           Provider (Client \<lparr>Client = \<lparr>Provider = ''etcd'', Address = ''10.0.0.1:2379'',
              Config = None\<rparr>\<rparr>) \<noteq> BOLTDB"
    by (simp add: BOLTDB_def)
  have e: "cache_list [] (net_obj [] [] False) = Inr []"
    by (simp add: cache_list_def net_obj_def)
  note bad = New_boltdb_only [where boltdb_New = ?f and
        cfg = "\<lparr>Client = \<lparr>Provider = ''etcd'', Address = ''10.0.0.1:2379'', Config = None\<rparr>\<rparr>",
        THEN conjunct1, rule_format, OF p]
  note good = New_boltdb_only [where boltdb_New = ?f and
        cfg = "\<lparr>Client = \<lparr>Provider = ''etcd'', Address = [], Config = None\<rparr>\<rparr>",
        THEN conjunct2, rule_format, OF n]
  from good obtain c where c: "cache empty_Store = Some c"
    and l: "List mem_store empty_Store ''docker/network/v1.0/network/'' (net_obj [] [] False) =
              (cache_list c (net_obj [] [] False), empty_Store)"
    by blast
  from c have "c = []"
    by (simp add: empty_Store_def)
  with bad n good c l e show ?thesis
    by simp
qed

subsection \<open>Coherence of the cache with the backend\<close>

lemma last_accepted_snoc: "last_accepted (h @ [ev]) = accept (last_accepted h) ev"
  by (simp add: last_accepted_def)


lemma version_succ_le: "x \<noteq> - 1 \<Longrightarrow> v \<le> x \<Longrightarrow> v \<le> (x + 1 :: index)"
proof -
  assume "x \<noteq> - 1" and v: "v \<le> x"
  then have "\<not> x + 1 \<le> x"
    by (simp add: inc_less_eq_self_iff_eq)
  then have "x \<le> x + 1"
    by simp
  with v show ?thesis
    by (rule order_trans)
qed


lemma SetIndex_simps [simp]:
  "obj_Skip (SetIndex ob i) = obj_Skip ob"
  "obj_Key (SetIndex ob i) = obj_Key ob"
  "obj_Value (SetIndex ob i) = obj_Value ob"
  "obj_Index (SetIndex ob i) = i"
  by (simp_all add: SetIndex_def)


lemma coherent_same:
  "cache ds' = cache ds \<Longrightarrow> last_accepted (history ds') = last_accepted (history ds) \<Longrightarrow>
   coherent ds \<Longrightarrow> coherent ds'"
  unfolding coherent_def by (cases "cache ds") auto


lemma coherent_nocache: "cache ds = None \<Longrightarrow> coherent ds"
  by (simp add: coherent_def)


lemma coherent_cache_update:
  assumes "coherent ds" and "cache ds = Some c" and "cache ds' = Some (AList.update k e c)"
    and "last_accepted (history ds') = last_accepted (history ds)"
    and "\<And>v. map_of (last_accepted (history ds)) k = Some v \<Longrightarrow> v \<le> ce_version e"
  shows "coherent ds'"
  using assms unfolding coherent_def by (auto simp: update_conv')


lemma coherent_both_update:
  assumes "coherent ds" and "cache ds = Some c" and "cache ds' = Some (AList.update k e c)"
    and "last_accepted (history ds') = AList.update k (ce_version e) (last_accepted (history ds))"
  shows "coherent ds'"
  using assms unfolding coherent_def by (auto simp: update_conv')


lemma coherent_both_delete:
  assumes "coherent ds" and "cache ds = Some c"
    and "cache ds' = Some c \<and> map_of c k = None \<or> cache ds' = Some (AList.delete k c)"
    and "last_accepted (history ds') = AList.delete k (last_accepted (history ds))"
  shows "coherent ds'"
  using assms unfolding coherent_def by (auto simp: delete_conv')


lemma Put_skip_result:
  assumes "obj_Skip obj" and "obj_Value obj = Some v" and "cache ds = Some c"
  shows "snd (snd (PutObjectAtomic B ds (Some obj))) =
     (if obj_Index obj \<noteq> cache_version c (Key (obj_Key obj)) then ds
      else ds\<lparr>cache := Some (AList.update (Key (obj_Key obj))
                  (entry_of (SetIndex obj (cache_version c (Key (obj_Key obj)) + 1))) c)\<rparr>)"
  using assms by (simp add: PutObjectAtomic_def add_cache_def cache_add_def Let_def)


lemma Put_nonskip_result:
  assumes "\<not> obj_Skip obj" and "obj_Value obj = Some v" and "cache ds = Some c"
    and "bs_AtomicPut B (store ds) (Key (obj_Key obj)) v
           (if obj_Exists obj
            then Some \<lparr>pair_Key = Key (obj_Key obj), pair_Value = [],
                       pair_LastIndex = obj_Index obj\<rparr>
            else None) = (r, b')"
  shows "snd (snd (PutObjectAtomic B ds (Some obj))) =
     (case r of
        Inl e \<Rightarrow>
          ds\<lparr>store := b',
             history := history ds @ [EvAtomicPut (Key (obj_Key obj)) v
               (if obj_Exists obj
                then Some \<lparr>pair_Key = Key (obj_Key obj), pair_Value = [],
                           pair_LastIndex = obj_Index obj\<rparr>
                else None) r]\<rparr>
      | Inr pair \<Rightarrow>
          ds\<lparr>store := b',
             history := history ds @ [EvAtomicPut (Key (obj_Key obj)) v
               (if obj_Exists obj
                then Some \<lparr>pair_Key = Key (obj_Key obj), pair_Value = [],
                           pair_LastIndex = obj_Index obj\<rparr>
                else None) r],
             cache := Some (AList.update (Key (obj_Key obj))
                  (entry_of (SetIndex obj (pair_LastIndex pair))) c)\<rparr>)"
  using assms
  by (simp add: PutObjectAtomic_def add_cache_def cache_add_def store_AtomicPut_def Let_def
           split: sum.splits)


lemma coherent_Put:
  assumes coh: "coherent ds" and al: "allowed ds (OpPut kvObject)"
  shows "coherent (snd (snd (PutObjectAtomic B ds kvObject)))"
proof (cases kvObject)
  case None
  with assms show ?thesis by (simp add: PutObjectAtomic_def)
next
  case (Some obj)
  note obj = this
  show ?thesis
  proof (cases "obj_Value obj")
    case None
    with obj assms show ?thesis by (simp add: PutObjectAtomic_def)
  next
    case (Some v)
    note val = this
    show ?thesis
    proof (cases "cache ds")
      case None
      then have "cache (snd (snd (PutObjectAtomic B ds kvObject))) = None"
        using obj val
        by (auto simp: PutObjectAtomic_def add_cache_def store_AtomicPut_def Let_def
                 split: prod.splits sum.splits)
      then show ?thesis by (rule coherent_nocache)
    next
      case (Some c)
      note c = this
      let ?k = "Key (obj_Key obj)"
      show ?thesis
      proof (cases "obj_Skip obj")
        case True
        show ?thesis
        proof (cases "obj_Index obj \<noteq> cache_version c ?k")
          case True
          with Put_skip_result [OF \<open>obj_Skip obj\<close> val c, of B] coh obj show ?thesis
            by simp
        next
          case False
          let ?e = "entry_of (SetIndex obj (cache_version c ?k + 1))"
          let ?ds' = "ds\<lparr>cache := Some (AList.update ?k ?e c)\<rparr>"
          have res: "snd (snd (PutObjectAtomic B ds kvObject)) = ?ds'"
            using Put_skip_result [OF \<open>obj_Skip obj\<close> val c, of B] False obj by simp
          have "coherent ?ds'"
          proof (rule coherent_cache_update [OF coh c])
            show "cache ?ds' = Some (AList.update ?k ?e c)" by simp
            show "last_accepted (history ?ds') = last_accepted (history ds)" by simp
            fix w assume w: "map_of (last_accepted (history ds)) ?k = Some w"
            with coh c obtain e where e: "map_of c ?k = Some e" "w \<le> ce_version e"
              unfolding coherent_def by auto
            from w have "backend_holds ds ?k"
              by (simp add: backend_holds_def)
            with al obj \<open>obj_Skip obj\<close> have "obj_Index obj \<noteq> - 1"
              by simp
            with False e have "ce_version e \<noteq> - 1"
              by (simp add: cache_version_def)
            from version_succ_le [OF this e(2)] e(1)
            show "w \<le> ce_version ?e"
              by (simp add: entry_of_def SetIndex_def cache_version_def)
          qed
          with res show ?thesis by simp
        qed
      next
        case False
        let ?prev = "if obj_Exists obj
            then Some \<lparr>pair_Key = ?k, pair_Value = [], pair_LastIndex = obj_Index obj\<rparr>
            else None"
        obtain r b' where r: "bs_AtomicPut B (store ds) ?k v ?prev = (r, b')"
          by (cases "bs_AtomicPut B (store ds) ?k v ?prev")
        note res = Put_nonskip_result [OF False val c r]
        show ?thesis
        proof (cases r)
          case (Inl e)
          with res obj have "snd (snd (PutObjectAtomic B ds kvObject)) =
              ds\<lparr>store := b', history := history ds @ [EvAtomicPut ?k v ?prev r]\<rparr>"
            by simp
          moreover have "coherent (ds\<lparr>store := b', history := history ds @ [EvAtomicPut ?k v ?prev r]\<rparr>)"
            by (rule coherent_same [OF _ _ coh]) (simp_all add: last_accepted_snoc Inl)
          ultimately show ?thesis by simp
        next
          case (Inr pair)
          let ?e = "entry_of (SetIndex obj (pair_LastIndex pair))"
          let ?ds' = "ds\<lparr>store := b', history := history ds @ [EvAtomicPut ?k v ?prev r],
                         cache := Some (AList.update ?k ?e c)\<rparr>"
          from res obj Inr have "snd (snd (PutObjectAtomic B ds kvObject)) = ?ds'"
            by simp
          moreover have "coherent ?ds'"
          proof (rule coherent_both_update [OF coh c, where k = ?k and e = ?e])
            show "cache ?ds' = Some (AList.update ?k ?e c)" by simp
            show "last_accepted (history ?ds') =
                    AList.update ?k (ce_version ?e) (last_accepted (history ds))"
              by (simp add: last_accepted_snoc Inr entry_of_def)
          qed
          ultimately show ?thesis by simp
        qed
      qed
    qed
  qed
qed


lemma Delete_result:
  assumes "cache ds = Some c"
  shows "obj_Skip obj \<Longrightarrow>
     snd (DeleteObjectAtomic B ds (Some obj)) = ds \<or>
     snd (DeleteObjectAtomic B ds (Some obj)) =
       ds\<lparr>cache := Some (AList.delete (Key (obj_Key obj)) c)\<rparr>"
    and "\<not> obj_Skip obj \<Longrightarrow>
     bs_AtomicDelete B (store ds) (Key (obj_Key obj))
       (Some \<lparr>pair_Key = Key (obj_Key obj), pair_Value = [],
              pair_LastIndex = obj_Index obj\<rparr>) = (r, b') \<Longrightarrow>
     snd (DeleteObjectAtomic B ds (Some obj)) =
       (case r of
          Some e \<Rightarrow>
            ds\<lparr>store := b',
               history := history ds @ [EvAtomicDelete (Key (obj_Key obj))
                 (Some \<lparr>pair_Key = Key (obj_Key obj), pair_Value = [],
                        pair_LastIndex = obj_Index obj\<rparr>) r]\<rparr>
        | None \<Rightarrow>
            ds\<lparr>store := b',
               history := history ds @ [EvAtomicDelete (Key (obj_Key obj))
                 (Some \<lparr>pair_Key = Key (obj_Key obj), pair_Value = [],
                        pair_LastIndex = obj_Index obj\<rparr>) r],
               cache := Some (if map_of c (Key (obj_Key obj)) = None then c
                              else AList.delete (Key (obj_Key obj)) c)\<rparr>)"
  using assms
  by (auto simp: DeleteObjectAtomic_def deleteCache_def cache_del_def store_AtomicDelete_def
        Let_def split: option.splits)


lemma coherent_Delete:
  assumes coh: "coherent ds" and al: "allowed ds (OpDelete kvObject)"
  shows "coherent (snd (DeleteObjectAtomic B ds kvObject))"
proof (cases kvObject)
  case None
  with assms show ?thesis by (simp add: DeleteObjectAtomic_def)
next
  case (Some obj)
  note obj = this
  let ?k = "Key (obj_Key obj)"
  show ?thesis
  proof (cases "cache ds")
    case None
    then have "cache (snd (DeleteObjectAtomic B ds kvObject)) = None"
      using obj
      by (auto simp: DeleteObjectAtomic_def deleteCache_def store_AtomicDelete_def Let_def
               split: prod.splits option.splits)
    then show ?thesis by (rule coherent_nocache)
  next
    case (Some c)
    note c = this
    show ?thesis
    proof (cases "obj_Skip obj")
      case True
      with al obj have nh: "map_of (last_accepted (history ds)) ?k = None"
        by (simp add: backend_holds_def)
      have "coherent (ds\<lparr>cache := Some (AList.delete ?k c)\<rparr>)"
        using coh c nh unfolding coherent_def
        by (auto simp: delete_conv')
      with Delete_result(1) [OF c True, of B] coh obj show ?thesis
        by auto
    next
      case False
      let ?prev = "Some \<lparr>pair_Key = ?k, pair_Value = [], pair_LastIndex = obj_Index obj\<rparr>"
      obtain r b' where r: "bs_AtomicDelete B (store ds) ?k ?prev = (r, b')"
        by (cases "bs_AtomicDelete B (store ds) ?k ?prev")
      note res = Delete_result(2) [OF c False r]
      show ?thesis
      proof (cases r)
        case (Some e)
        with res obj have "snd (DeleteObjectAtomic B ds kvObject) =
            ds\<lparr>store := b', history := history ds @ [EvAtomicDelete ?k ?prev r]\<rparr>"
          by simp
        moreover have "coherent (ds\<lparr>store := b', history := history ds @ [EvAtomicDelete ?k ?prev r]\<rparr>)"
          by (rule coherent_same [OF _ _ coh]) (simp_all add: last_accepted_snoc Some)
        ultimately show ?thesis by simp
      next
        case None
        let ?c' = "if map_of c ?k = None then c else AList.delete ?k c"
        let ?ds' = "ds\<lparr>store := b', history := history ds @ [EvAtomicDelete ?k ?prev r],
                       cache := Some ?c'\<rparr>"
        from res obj None have "snd (DeleteObjectAtomic B ds kvObject) = ?ds'"
          by simp
        moreover have "coherent ?ds'"
        proof (rule coherent_both_delete [OF coh c, where k = ?k])
          show "cache ?ds' = Some c \<and> map_of c ?k = None \<or> cache ?ds' = Some (AList.delete ?k c)"
            by simp
          show "last_accepted (history ?ds') = AList.delete ?k (last_accepted (history ds))"
            by (simp add: last_accepted_snoc None)
        qed
        ultimately show ?thesis by simp
      qed
    qed
  qed
qed


lemma coherent_Get: "coherent ds \<Longrightarrow> coherent (snd (snd (GetObject B ds key obj)))"
proof (cases "cache ds")
  case None
  then have "cache (snd (snd (GetObject B ds key obj))) = None"
    by (auto simp: GetObject_def store_Get_def split: prod.splits sum.splits)
  then show ?thesis by (rule coherent_nocache)
next
  case (Some c)
  then have "snd (snd (GetObject B ds key obj)) = ds"
    by (simp add: GetObject_def split: sum.splits)
  moreover assume "coherent ds"
  ultimately show ?thesis by simp
qed


lemma ensureParent_accepted:
  "last_accepted (history (snd (ensureParent B ds key))) = last_accepted (history ds) \<and>
   cache (snd (ensureParent B ds key)) = cache ds"
  by (auto simp: ensureParent_def store_Exists_def store_Put_def last_accepted_def
           split: prod.splits sum.splits)


lemma iterate_accepted:
  "last_accepted (history (snd (iterateKVPairsFromStore B ds key ex cb acc))) =
     last_accepted (history ds) \<and>
   cache (snd (iterateKVPairsFromStore B ds key ex cb acc)) = cache ds"
proof (cases "ensureParent B ds key")
  case (Pair r ds1)
  with ensureParent_accepted [of B ds key]
  have "last_accepted (history ds1) = last_accepted (history ds)" "cache ds1 = cache ds"
    by simp_all
  with Pair show ?thesis
    by (auto simp: iterateKVPairsFromStore_def store_List_def last_accepted_snoc
             split: prod.splits sum.splits option.splits)
qed


lemma coherent_List: "coherent ds \<Longrightarrow> coherent (snd (List B ds key obj))"
proof (cases "cache ds")
  case None
  with iterate_accepted [of B ds key obj List_cb "[]"]
  have "cache (snd (List B ds key obj)) = None"
    by (simp add: List_def)
  then show ?thesis by (rule coherent_nocache)
next
  case (Some c)
  moreover assume "coherent ds"
  ultimately show ?thesis by (simp add: List_def)
qed


lemma coherent_Map: "coherent ds \<Longrightarrow> coherent (snd (Map B ds key obj))"
  using iterate_accepted [of B ds key obj Map_cb Map.empty]
  by (auto simp: Map_def intro: coherent_same)


lemma coherent_step: "coherent ds \<Longrightarrow> allowed ds x \<Longrightarrow> coherent (step B ds x)"
  by (cases x) (simp_all add: coherent_Put coherent_Delete coherent_Get coherent_List coherent_Map)


lemma coherent_run: "coherent ds \<Longrightarrow> valid_run B ds xs \<Longrightarrow> coherent (run B ds xs)"
  by (induction xs arbitrary: ds) (simp_all add: coherent_step)


lemma coherent_fresh: "history ds = [] \<Longrightarrow> coherent ds"
  by (simp add: coherent_def last_accepted_def split: option.splits)


lemma coherent_not_behind: "coherent ds \<Longrightarrow> cache_not_behind ds"
proof (cases "cache ds")
  case None
  then show ?thesis by (simp add: cache_not_behind_def)
next
  case (Some c)
  assume "coherent ds"
  with Some have inv: "\<And>k v. map_of (last_accepted (history ds)) k = Some v \<Longrightarrow>
      \<exists>e. map_of c k = Some e \<and> v \<le> ce_version e"
    by (simp add: coherent_def)
  have "(case (map_of c k, map_of (last_accepted (history ds)) k) of
           (Some e, Some v) \<Rightarrow> v \<le> ce_version e
         | _ \<Rightarrow> True)" for k
    using inv [of k] by (auto split: option.splits)
  with Some show ?thesis
    by (simp add: cache_not_behind_def list_all_iff)
qed


lemma run_append: "run B ds (xs @ ys) = run B (run B ds xs) ys"
  by (induction xs arbitrary: ds) simp_all


lemma valid_run_append:
  "valid_run B ds (xs @ ys) = (valid_run B ds xs \<and> valid_run B (run B ds xs) ys)"
  by (induction xs arbitrary: ds) simp_all


lemma Put_empty_Store:
  "PutObjectAtomic mem_store empty_Store (Some (net_obj ''a'' [1] False)) =
     (None, Some (stored_obj [1] False 1), once_Store)"
  by (simp add: PutObjectAtomic_def add_cache_def store_defs mem_defs cache_defs run_defs Key_net
        once_Store_def)


lemma run_two_puts: "run mem_store empty_Store two_puts = twice_Store"
proof -
  have "step mem_store once_Store (OpPut (Some (stored_obj [2] False 1))) = twice_Store"
    by (simp add: PutObjectAtomic_def add_cache_def store_defs mem_defs cache_defs run_defs Key_net
          twice_Store_def once_Store_def)
  then show ?thesis
    by (simp add: two_puts_def Put_empty_Store)
qed


lemma valid_two_puts: "valid_run mem_store empty_Store two_puts"
  by (simp add: two_puts_def net_obj_def stored_obj_def)


lemma accepted_twice_Store:
  "last_accepted (history twice_Store) = [(''docker/network/v1.0/network/a/'', 2)]"
  by (simp add: twice_Store_def last_accepted_def)


lemma run_mixed_mode:
  "run mem_store empty_Store mixed_mode_ops =
     twice_Store\<lparr>cache := Some [(''docker/network/v1.0/network/a/'',
                     \<lparr>ce_value = [3], ce_version = 1, ce_scope = ''local''\<rparr>)]\<rparr>"
proof -
  have "step mem_store twice_Store (OpDelete (Some (stored_obj [2] True 2))) =
          twice_Store\<lparr>cache := Some []\<rparr>"
    by (simp add: DeleteObjectAtomic_def deleteCache_def cache_defs run_defs Key_net
          twice_Store_def)
  moreover have "step mem_store (twice_Store\<lparr>cache := Some []\<rparr>)
      (OpPut (Some (net_obj ''a'' [3] True))) =
     twice_Store\<lparr>cache := Some [(''docker/network/v1.0/network/a/'',
                     \<lparr>ce_value = [3], ce_version = 1, ce_scope = ''local''\<rparr>)]\<rparr>"
    by (simp add: PutObjectAtomic_def add_cache_def cache_defs run_defs Key_net twice_Store_def)
  ultimately show ?thesis
    by (simp add: mixed_mode_ops_def run_append run_two_puts)
qed


lemma put_then_get:
  assumes c: "cache ds = Some c" and ns: "\<not> obj_Skip obj" and v: "obj_Value obj = Some v"
    and put: "PutObjectAtomic B ds (Some obj) = (None, Some obj', ds')"
    and k: "Key (obj_Key ob) = Key (obj_Key obj)" and dec: "obj_Decodes ob v"
  shows "\<exists>ob' c'. GetObject B ds' key ob = (None, ob', ds') \<and> obj_Value ob' = Some v \<and>
           obj_Index ob' = obj_Index obj' \<and> cache ds' = Some c' \<and>
           map_option ce_version (map_of c' (Key (obj_Key obj))) = Some (obj_Index obj') \<and>
           map_of (last_accepted (history ds')) (Key (obj_Key obj)) = Some (obj_Index obj')"
proof -
  let ?k = "Key (obj_Key obj)"
  let ?prev = "if obj_Exists obj
            then Some \<lparr>pair_Key = ?k, pair_Value = [], pair_LastIndex = obj_Index obj\<rparr>
            else None"
  obtain r b' where r: "bs_AtomicPut B (store ds) ?k v ?prev = (r, b')"
    by (cases "bs_AtomicPut B (store ds) ?k v ?prev")
  from put ns v r obtain pair where pair: "r = Inr pair"
    by (cases r) (auto simp: PutObjectAtomic_def store_AtomicPut_def Let_def split: if_splits)
  let ?e = "entry_of (SetIndex obj (pair_LastIndex pair))"
  from put ns v r c pair have obj': "obj' = SetIndex obj (pair_LastIndex pair)"
    and ds': "ds' = ds\<lparr>store := b',
             history := history ds @ [EvAtomicPut ?k v ?prev r],
             cache := Some (AList.update ?k ?e c)\<rparr>"
    by (auto simp: PutObjectAtomic_def store_AtomicPut_def add_cache_def cache_add_def Let_def)
  have e: "ce_value ?e = v" "ce_version ?e = pair_LastIndex pair"
    using v by (simp_all add: entry_of_def)
  have get: "GetObject B ds' key ob =
      (None, SetIndex (ob\<lparr>obj_Value := Some v\<rparr>) (pair_LastIndex pair), ds')"
    using dec k e by (simp add: GetObject_def cache_get_def ds' update_conv' SetValue_def)
  have la: "map_of (last_accepted (history ds')) ?k = Some (pair_LastIndex pair)"
    by (simp add: ds' last_accepted_snoc pair update_conv')
  from get la e show ?thesis
    by (simp add: obj') (simp add: ds' update_conv')
qed


lemma replay_append:
  "replay B b (h1 @ h2) = (case replay B b h1 of None \<Rightarrow> None | Some b' \<Rightarrow> replay B b' h2)"
  by (induction h1 arbitrary: b) (auto split: option.splits)

lemma faithful_cache [simp]: "faithful B b0 (ds\<lparr>cache := c\<rparr>) = faithful B b0 ds"
  by (simp add: faithful_def)

lemma faithful_call:
  assumes "faithful B b0 ds" and "replay_event B (store ds) ev = Some b'"
  shows "faithful B b0 (ds\<lparr>store := b', history := history ds @ [ev]\<rparr>)"
  using assms by (simp add: faithful_def replay_append)

lemma faithful_wrappers:
  assumes "faithful B b0 ds"
  shows "faithful B b0 (snd (store_Get B ds k))"
    and "faithful B b0 (snd (store_Put B ds k v))"
    and "faithful B b0 (snd (store_Exists B ds k))"
    and "faithful B b0 (snd (store_List B ds k))"
    and "faithful B b0 (snd (store_AtomicPut B ds k v previous))"
    and "faithful B b0 (snd (store_AtomicDelete B ds k previous))"
  using assms
  by (auto simp: store_defs intro!: faithful_call split: prod.splits)


lemma faithful_after:
  assumes "faithful B b0 ds"
  shows "store_Get B ds k = (r1, ds1) \<Longrightarrow> faithful B b0 ds1"
    and "store_Put B ds k v = (r2, ds2) \<Longrightarrow> faithful B b0 ds2"
    and "store_Exists B ds k = (r3, ds3) \<Longrightarrow> faithful B b0 ds3"
    and "store_List B ds k = (r4, ds4) \<Longrightarrow> faithful B b0 ds4"
    and "store_AtomicPut B ds k v previous = (r5, ds5) \<Longrightarrow> faithful B b0 ds5"
    and "store_AtomicDelete B ds k previous = (r6, ds6) \<Longrightarrow> faithful B b0 ds6"
proof -
  note w = faithful_wrappers [OF assms]
  show "store_Get B ds k = (r1, ds1) \<Longrightarrow> faithful B b0 ds1"
    using w(1) [of k] by simp
  show "store_Put B ds k v = (r2, ds2) \<Longrightarrow> faithful B b0 ds2"
    using w(2) [of k v] by simp
  show "store_Exists B ds k = (r3, ds3) \<Longrightarrow> faithful B b0 ds3"
    using w(3) [of k] by simp
  show "store_List B ds k = (r4, ds4) \<Longrightarrow> faithful B b0 ds4"
    using w(4) [of k] by simp
  show "store_AtomicPut B ds k v previous = (r5, ds5) \<Longrightarrow> faithful B b0 ds5"
    using w(5) [of k v previous] by simp
  show "store_AtomicDelete B ds k previous = (r6, ds6) \<Longrightarrow> faithful B b0 ds6"
    using w(6) [of k previous] by simp
qed

lemma faithful_Put: "faithful B b0 ds \<Longrightarrow> faithful B b0 (snd (snd (PutObjectAtomic B ds kvObject)))"
  by (auto simp: PutObjectAtomic_def add_cache_def Let_def
           split: option.splits prod.splits sum.splits if_splits
           intro: faithful_after(5))

lemma faithful_Delete: "faithful B b0 ds \<Longrightarrow> faithful B b0 (snd (DeleteObjectAtomic B ds kvObject))"
  by (auto simp: DeleteObjectAtomic_def deleteCache_def Let_def
           split: option.splits prod.splits sum.splits if_splits
           intro: faithful_after(6))

lemma faithful_Get: "faithful B b0 ds \<Longrightarrow> faithful B b0 (snd (snd (GetObject B ds key obj)))"
  by (auto simp: GetObject_def split: option.splits prod.splits sum.splits
           intro: faithful_after(1))

lemma faithful_ensureParent: "faithful B b0 ds \<Longrightarrow> faithful B b0 (snd (ensureParent B ds key))"
  by (auto simp: ensureParent_def split: prod.splits sum.splits
           intro: faithful_after(3) faithful_wrappers(2))

lemma faithful_iterate:
  "faithful B b0 ds \<Longrightarrow> faithful B b0 (snd (iterateKVPairsFromStore B ds key ex cb acc))"
proof -
  assume f: "faithful B b0 ds"
  obtain r ds1 where e: "ensureParent B ds key = (r, ds1)"
    by (cases "ensureParent B ds key")
  with faithful_ensureParent [OF f, of key] have f1: "faithful B b0 ds1"
    by simp
  from f f1 e show ?thesis
    by (auto simp: iterateKVPairsFromStore_def split: option.splits prod.splits sum.splits
             intro: faithful_after(4))
qed

lemma faithful_step: "faithful B b0 ds \<Longrightarrow> faithful B b0 (step B ds x)"
  by (cases x)
     (auto simp: faithful_Put faithful_Delete faithful_Get faithful_iterate List_def Map_def
           split: option.splits)

lemma faithful_run: "faithful B b0 ds \<Longrightarrow> faithful B b0 (run B ds xs)"
  by (induction xs arbitrary: ds) (simp_all add: faithful_step)

lemma faithful_fresh: "history ds = [] \<Longrightarrow> faithful B (store ds) ds"
  by (simp add: faithful_def)


lemma put_success_shape:
  assumes ns: "\<not> obj_Skip obj" and v: "obj_Value obj = Some v"
    and put: "PutObjectAtomic B ds (Some obj) = (None, Some obj', ds')"
  shows "\<exists>pair.
      bs_AtomicPut B (store ds) (Key (obj_Key obj)) v
        (if obj_Exists obj
         then Some \<lparr>pair_Key = Key (obj_Key obj), pair_Value = [],
                    pair_LastIndex = obj_Index obj\<rparr>
         else None) = (Inr pair, store ds') \<and>
      obj' = SetIndex obj (pair_LastIndex pair) \<and>
      history ds' = history ds @
        [EvAtomicPut (Key (obj_Key obj)) v
           (if obj_Exists obj
            then Some \<lparr>pair_Key = Key (obj_Key obj), pair_Value = [],
                       pair_LastIndex = obj_Index obj\<rparr>
            else None) (Inr pair)] \<and>
      cache ds' = map_option (AList.update (Key (obj_Key obj)) (entry_of obj')) (cache ds)"
proof -
  let ?k = "Key (obj_Key obj)"
  let ?prev = "if obj_Exists obj
            then Some \<lparr>pair_Key = ?k, pair_Value = [], pair_LastIndex = obj_Index obj\<rparr>
            else None"
  obtain r b' where r: "bs_AtomicPut B (store ds) ?k v ?prev = (r, b')"
    by (cases "bs_AtomicPut B (store ds) ?k v ?prev")
  from put ns v r obtain pair where pair: "r = Inr pair"
    by (cases r) (auto simp: PutObjectAtomic_def store_AtomicPut_def Let_def split: if_splits)
  from put ns v r pair have "obj' = SetIndex obj (pair_LastIndex pair)"
    and "store ds' = b'"
    and "history ds' = history ds @ [EvAtomicPut ?k v ?prev (Inr pair)]"
    and "cache ds' = map_option (AList.update ?k (entry_of obj')) (cache ds)"
    by (auto simp: PutObjectAtomic_def store_AtomicPut_def add_cache_def cache_add_def Let_def
             split: option.splits)
  with r pair show ?thesis
    by auto
qed

lemma run_wrap:
  "run mem_store brink_Store wrap_ops =
     \<lparr>scope = ''local'', store = [(''docker/network/v1.0/network/a/'', [2], - 1)],
      cache = Some [(''docker/network/v1.0/network/a/'',
                     \<lparr>ce_value = [3], ce_version = 0, ce_scope = ''local''\<rparr>)],
      history =
        [EvAtomicPut ''docker/network/v1.0/network/a/'' [2]
           (Some \<lparr>pair_Key = ''docker/network/v1.0/network/a/'', pair_Value = [],
                  pair_LastIndex = - 2\<rparr>)
           (Inr \<lparr>pair_Key = ''docker/network/v1.0/network/a/'', pair_Value = [2],
                 pair_LastIndex = - 1\<rparr>)]\<rparr>"
proof -
  have "step mem_store brink_Store (OpPut (Some (stored_obj [2] False (- 2)))) =
     \<lparr>scope = ''local'', store = [(''docker/network/v1.0/network/a/'', [2], - 1)],
      cache = Some [(''docker/network/v1.0/network/a/'',
                     \<lparr>ce_value = [2], ce_version = - 1, ce_scope = ''local''\<rparr>)],
      history =
        [EvAtomicPut ''docker/network/v1.0/network/a/'' [2]
           (Some \<lparr>pair_Key = ''docker/network/v1.0/network/a/'', pair_Value = [],
                  pair_LastIndex = - 2\<rparr>)
           (Inr \<lparr>pair_Key = ''docker/network/v1.0/network/a/'', pair_Value = [2],
                 pair_LastIndex = - 1\<rparr>)]\<rparr>"
    by (simp add: PutObjectAtomic_def add_cache_def store_defs mem_defs cache_defs run_defs Key_net
          brink_Store_def Let_def)
  moreover have "step mem_store
     \<lparr>scope = ''local'', store = [(''docker/network/v1.0/network/a/'', [2], - 1)],
      cache = Some [(''docker/network/v1.0/network/a/'',
                     \<lparr>ce_value = [2], ce_version = - 1, ce_scope = ''local''\<rparr>)],
      history =
        [EvAtomicPut ''docker/network/v1.0/network/a/'' [2]
           (Some \<lparr>pair_Key = ''docker/network/v1.0/network/a/'', pair_Value = [],
                  pair_LastIndex = - 2\<rparr>)
           (Inr \<lparr>pair_Key = ''docker/network/v1.0/network/a/'', pair_Value = [2],
                 pair_LastIndex = - 1\<rparr>)]\<rparr>
     (OpPut (Some (stored_obj [3] True (- 1)))) =
     \<lparr>scope = ''local'', store = [(''docker/network/v1.0/network/a/'', [2], - 1)],
      cache = Some [(''docker/network/v1.0/network/a/'',
                     \<lparr>ce_value = [3], ce_version = 0, ce_scope = ''local''\<rparr>)],
      history =
        [EvAtomicPut ''docker/network/v1.0/network/a/'' [2]
           (Some \<lparr>pair_Key = ''docker/network/v1.0/network/a/'', pair_Value = [],
                  pair_LastIndex = - 2\<rparr>)
           (Inr \<lparr>pair_Key = ''docker/network/v1.0/network/a/'', pair_Value = [2],
                 pair_LastIndex = - 1\<rparr>)]\<rparr>"
    by (simp add: PutObjectAtomic_def add_cache_def cache_defs run_defs Key_net Let_def)
  ultimately show ?thesis
    by (simp add: wrap_ops_def)
qed

lemma New_pre_Store:
  "New (\<lambda>addr config. Inr [(''docker/network/v1.0/network/a/'', [9], 5)]) (DefaultScope []) =
     Inr pre_Store"
  by (simp add: New_def newClient_def DefaultScope_def newCache_def scope_Local_def pre_Store_def)

lemma run_pre_Store:
  "run mem_store pre_Store [OpPut (Some (net_obj ''a'' [3] True))] =
     pre_Store\<lparr>cache := Some [(''docker/network/v1.0/network/a/'',
                     \<lparr>ce_value = [3], ce_version = 1, ce_scope = ''local''\<rparr>)]\<rparr>"
  by (simp add: PutObjectAtomic_def add_cache_def cache_defs run_defs Key_net pre_Store_def)

lemma valid_pre_Store: "valid_run mem_store pre_Store [OpPut (Some (net_obj ''a'' [3] True))]"
  by (simp add: net_obj_def)

lemma Put_plain_Store:
  "PutObjectAtomic B plain_Store (Some (net_obj ''a'' [1] False)) =
     (None, Some (stored_obj [1] False 1),
      plain_Store\<lparr>store := [(''docker/network/v1.0/network/a/'', [1], 1)],
        history := [EvAtomicPut ''docker/network/v1.0/network/a/'' [1] None
           (Inr \<lparr>pair_Key = ''docker/network/v1.0/network/a/'', pair_Value = [1],
                 pair_LastIndex = 1\<rparr>)]\<rparr>)"
  if "B = mem_store \<or> B = deaf_store"
  using that
  by (auto simp: PutObjectAtomic_def add_cache_def store_defs mem_defs cache_defs run_defs Key_net
        plain_Store_def deaf_store_def)

lemma Get_deaf:
  "fst (GetObject deaf_store
     (plain_Store\<lparr>store := [(''docker/network/v1.0/network/a/'', [1], 1)],
        history := [EvAtomicPut ''docker/network/v1.0/network/a/'' [1] None
           (Inr \<lparr>pair_Key = ''docker/network/v1.0/network/a/'', pair_Value = [1],
                 pair_LastIndex = 1\<rparr>)]\<rparr>)
     ''docker/network/v1.0/network/a/'' (net_obj ''a'' [] False)) =
   Some (ErrorString ''i/o error'')"
  by (simp add: GetObject_def store_defs deaf_store_def mem_defs plain_Store_def)

lemma Get_other:
  "fst (GetObject mem_store
     (plain_Store\<lparr>store := [(''docker/network/v1.0/network/a/'', [1], 1)],
        history := [EvAtomicPut ''docker/network/v1.0/network/a/'' [1] None
           (Inr \<lparr>pair_Key = ''docker/network/v1.0/network/a/'', pair_Value = [1],
                 pair_LastIndex = 1\<rparr>)]\<rparr>)
     ''docker/network/v1.0/network/a/'' other_obj) =
   Some (ErrorString ''unmarshal error'')"
  by (simp add: GetObject_def store_defs mem_defs plain_Store_def other_obj_def SetValue_def
        net_obj_def)

lemma get_after_put:
  assumes ns: "\<not> obj_Skip obj" and v: "obj_Value obj = Some v"
    and put: "PutObjectAtomic B ds (Some obj) = (None, Some obj', ds')"
    and k: "Key (obj_Key ob) = Key (obj_Key obj)" and dec: "obj_Decodes ob v"
  shows "cache ds = Some c \<Longrightarrow>
           \<exists>ob'. GetObject B ds' key ob = (None, ob', ds') \<and> obj_Value ob' = Some v \<and>
             obj_Index ob' = obj_Index obj'"
    and "cache ds = None \<Longrightarrow> bs_Get B (store ds') (Key (obj_Key obj)) = (Inr got, b) \<Longrightarrow>
         pair_Value got = v \<Longrightarrow> pair_LastIndex got = obj_Index obj' \<Longrightarrow>
           \<exists>ob' ds''. GetObject B ds' (Key (obj_Key obj)) ob = (None, ob', ds'') \<and>
             obj_Value ob' = Some v \<and> obj_Index ob' = obj_Index obj' \<and> store ds'' = b"
    and "cache ds = None \<Longrightarrow> bs_Get B (store ds') (Key (obj_Key obj)) = (Inl e, b) \<Longrightarrow>
           fst (GetObject B ds' (Key (obj_Key obj)) ob) = Some e"
proof -
  from put_success_shape [OF ns v put]
  have c': "cache ds' = map_option (AList.update (Key (obj_Key obj)) (entry_of obj')) (cache ds)"
    by (elim exE conjE)
  show "\<exists>ob'. GetObject B ds' key ob = (None, ob', ds') \<and> obj_Value ob' = Some v \<and>
             obj_Index ob' = obj_Index obj'" if "cache ds = Some c"
    using put_then_get [OF that ns v put k dec, of key] by blast
  show "\<exists>ob' ds''. GetObject B ds' (Key (obj_Key obj)) ob = (None, ob', ds'') \<and>
             obj_Value ob' = Some v \<and> obj_Index ob' = obj_Index obj' \<and> store ds'' = b"
    if "cache ds = None" "bs_Get B (store ds') (Key (obj_Key obj)) = (Inr got, b)"
      "pair_Value got = v" "pair_LastIndex got = obj_Index obj'"
    using that c' dec
    by (simp add: GetObject_def store_Get_def SetValue_def)
  show "fst (GetObject B ds' (Key (obj_Key obj)) ob) = Some e"
    if "cache ds = None" "bs_Get B (store ds') (Key (obj_Key obj)) = (Inl e, b)"
    using that c' by (simp add: GetObject_def store_Get_def)
qed

text \<open>
  C2, as the specification states it, fails in five ways, each on a run of the facade.
  \<^item> Mixed persistence modes: two persisted writes of \<open>a\<close> bring the backend and the cache
    to version 2; a delete of \<open>a\<close> by an object with \<^verbatim>\<open>Skip() == true\<close> at version 2
    removes the cache's entry only; a first skip put of \<open>a\<close> then makes the cache restart
    at version 1, while the backend still holds \<open>a\<close> at version 2.
  \<^item> Wrap-around: the backend accepts a write of \<open>a\<close> at version \<open>2 ^ 64 - 1\<close>, the cache
    mirrors it, and a skip put of \<open>a\<close> at that version makes the cache assign version 0.
  \<^item> A backend that holds \<open>a\<close> at version 5 before the Store is constructed:
    \<^verbatim>\<open>New\<close> installs an empty cache, no backend call has been made through the Store,
    and one skip put of \<open>a\<close> gives the cache version 1.
  \<^item> A Store without a cache over a backend whose \<^verbatim>\<open>Get\<close> fails: the write succeeds
    and the \<^verbatim>\<open>GetObject\<close> right after it returns the backend's error.
  \<^item> A supplied object that cannot unmarshal the stored value: the write succeeds and
    \<^verbatim>\<open>GetObject\<close> returns the error of \<^verbatim>\<open>SetValue\<close>.
\<close>

theorem coherence_counterexample:
  "\<not> cache_not_behind (run mem_store empty_Store mixed_mode_ops) \<and>
   fst (bs_Get mem_store (store (run mem_store empty_Store mixed_mode_ops))
          ''docker/network/v1.0/network/a/'') =
     Inr \<lparr>pair_Key = ''docker/network/v1.0/network/a/'', pair_Value = [2], pair_LastIndex = 2\<rparr> \<and>
   map_option ce_version
     (map_of (the (cache (run mem_store empty_Store mixed_mode_ops)))
        ''docker/network/v1.0/network/a/'') = Some 1 \<and>
   \<not> cache_not_behind (run mem_store brink_Store wrap_ops) \<and>
   fst (bs_Get mem_store (store (run mem_store brink_Store wrap_ops))
          ''docker/network/v1.0/network/a/'') =
     Inr \<lparr>pair_Key = ''docker/network/v1.0/network/a/'', pair_Value = [2],
          pair_LastIndex = - 1\<rparr> \<and>
   map_option ce_version
     (map_of (the (cache (run mem_store brink_Store wrap_ops)))
        ''docker/network/v1.0/network/a/'') = Some 0 \<and>
   New (\<lambda>addr config. Inr [(''docker/network/v1.0/network/a/'', [9], 5)]) (DefaultScope []) =
     Inr pre_Store \<and>
   valid_run mem_store pre_Store [OpPut (Some (net_obj ''a'' [3] True))] \<and>
   fst (bs_Get mem_store
          (store (run mem_store pre_Store [OpPut (Some (net_obj ''a'' [3] True))]))
          ''docker/network/v1.0/network/a/'') =
     Inr \<lparr>pair_Key = ''docker/network/v1.0/network/a/'', pair_Value = [9], pair_LastIndex = 5\<rparr> \<and>
   map_option ce_version
     (map_of (the (cache (run mem_store pre_Store [OpPut (Some (net_obj ''a'' [3] True))])))
        ''docker/network/v1.0/network/a/'') = Some 1 \<and>
   fst (PutObjectAtomic deaf_store plain_Store (Some (net_obj ''a'' [1] False))) = None \<and>
   fst (GetObject deaf_store
          (snd (snd (PutObjectAtomic deaf_store plain_Store (Some (net_obj ''a'' [1] False)))))
          ''docker/network/v1.0/network/a/'' (net_obj ''a'' [] False)) =
     Some (ErrorString ''i/o error'') \<and>
   fst (PutObjectAtomic mem_store plain_Store (Some (net_obj ''a'' [1] False))) = None \<and>
   fst (GetObject mem_store
          (snd (snd (PutObjectAtomic mem_store plain_Store (Some (net_obj ''a'' [1] False)))))
          ''docker/network/v1.0/network/a/'' other_obj) =
     Some (ErrorString ''unmarshal error'')"
proof -
  let ?k = "''docker/network/v1.0/network/a/''"
  let ?ob = "net_obj ''a'' [1] False"
  have m1: "\<not> cache_not_behind (run mem_store empty_Store mixed_mode_ops)"
    unfolding run_mixed_mode
    by (simp add: accepted_twice_Store cache_not_behind_def)
       (simp add: twice_Store_def word_le_nat_alt)
  have m2: "fst (bs_Get mem_store (store (run mem_store empty_Store mixed_mode_ops)) ?k) =
     Inr \<lparr>pair_Key = ?k, pair_Value = [2], pair_LastIndex = 2\<rparr>"
    unfolding run_mixed_mode by (simp add: twice_Store_def mem_defs)
  have m3: "map_option ce_version
     (map_of (the (cache (run mem_store empty_Store mixed_mode_ops))) ?k) = Some 1"
    unfolding run_mixed_mode by simp
  have w1: "\<not> cache_not_behind (run mem_store brink_Store wrap_ops)"
    unfolding run_wrap by (simp add: cache_not_behind_def last_accepted_def)
  have w2: "fst (bs_Get mem_store (store (run mem_store brink_Store wrap_ops)) ?k) =
     Inr \<lparr>pair_Key = ?k, pair_Value = [2], pair_LastIndex = - 1\<rparr>"
    unfolding run_wrap by (simp add: mem_defs)
  have w3: "map_option ce_version
     (map_of (the (cache (run mem_store brink_Store wrap_ops))) ?k) = Some 0"
    unfolding run_wrap by simp
  note p1 = New_pre_Store
  have p2: "fst (bs_Get mem_store
          (store (run mem_store pre_Store [OpPut (Some (net_obj ''a'' [3] True))])) ?k) =
     Inr \<lparr>pair_Key = ?k, pair_Value = [9], pair_LastIndex = 5\<rparr>"
    unfolding run_pre_Store by (simp add: pre_Store_def mem_defs)
  have p3: "map_option ce_version
     (map_of (the (cache (run mem_store pre_Store [OpPut (Some (net_obj ''a'' [3] True))]))) ?k) =
     Some 1"
    unfolding run_pre_Store by simp
  have d1: "fst (PutObjectAtomic deaf_store plain_Store (Some ?ob)) = None"
    by (simp add: Put_plain_Store)
  have d2: "fst (GetObject deaf_store
          (snd (snd (PutObjectAtomic deaf_store plain_Store (Some ?ob)))) ?k
          (net_obj ''a'' [] False)) = Some (ErrorString ''i/o error'')"
    by (simp add: Put_plain_Store Get_deaf)
  have o1: "fst (PutObjectAtomic mem_store plain_Store (Some ?ob)) = None"
    by (simp add: Put_plain_Store)
  have o2: "fst (GetObject mem_store
          (snd (snd (PutObjectAtomic mem_store plain_Store (Some ?ob)))) ?k other_obj) =
     Some (ErrorString ''unmarshal error'')"
    by (simp add: Put_plain_Store Get_other)
  show ?thesis
    by (intro conjI) (fact m1 m2 m3 w1 w2 w3 p1 valid_pre_Store p2 p3 d1 d2 o1 o2)+
qed

text \<open>
  C2, amended. A successful \<^verbatim>\<open>PutObjectAtomic\<close> of a non-skip object is one
  \<^verbatim>\<open>AtomicPut\<close> that the backend answered with a pair; the object carries that pair's
  version, the backend is in the state the call left, and, with a cache, the cache holds
  the key with the written value at exactly that version. A \<^verbatim>\<open>GetObject\<close> right after
  it, with an object of the same key that can unmarshal the written value, succeeds and
  hydrates the object with the value and the version just written: with a cache always;
  without a cache when the backend's \<^verbatim>\<open>Get\<close> of the key answers the value and version
  it accepted (it returns the error of \<^verbatim>\<open>Get\<close> when that fails).

  The versions the backend accepted are those of the calls made through this Store: from
  a Store on which no backend call has been made yet, the history of every run of facade
  calls is, call by call, what the backend answered, and ends in the backend's state. On
  every such run in which a skip delete hits only keys without an accepted version, and a
  skip put of a key with an accepted version is made below the largest \<^verbatim>\<open>uint64\<close>
  version, the cache's version of every key that the cache holds and that has an accepted
  version is at least that version. Keys the backend held before the Store was constructed
  are not covered.
\<close>

theorem coherence_through_facade:
  "(\<not> obj_Skip obj \<and> obj_Value obj = Some v \<and>
      PutObjectAtomic B ds (Some obj) = (None, Some obj', ds') \<longrightarrow>
      (\<exists>pair.
         bs_AtomicPut B (store ds) (Key (obj_Key obj)) v
           (if obj_Exists obj
            then Some \<lparr>pair_Key = Key (obj_Key obj), pair_Value = [],
                       pair_LastIndex = obj_Index obj\<rparr>
            else None) = (Inr pair, store ds') \<and>
         obj_Index obj' = pair_LastIndex pair \<and> obj_Value obj' = Some v \<and>
         map_of (last_accepted (history ds')) (Key (obj_Key obj)) = Some (pair_LastIndex pair) \<and>
         (\<forall>c. cache ds = Some c \<longrightarrow>
            (\<exists>c'. cache ds' = Some c' \<and>
               map_option ce_version (map_of c' (Key (obj_Key obj))) = Some (pair_LastIndex pair) \<and>
               map_option ce_value (map_of c' (Key (obj_Key obj))) = Some v)) \<and>
         (Key (obj_Key ob) = Key (obj_Key obj) \<and> obj_Decodes ob v \<longrightarrow>
            (\<forall>c. cache ds = Some c \<longrightarrow>
               (\<exists>ob'. GetObject B ds' key ob = (None, ob', ds') \<and> obj_Value ob' = Some v \<and>
                  obj_Index ob' = obj_Index obj')) \<and>
            (\<forall>got b. cache ds = None \<and>
               bs_Get B (store ds') (Key (obj_Key obj)) = (Inr got, b) \<and>
               pair_Value got = v \<and> pair_LastIndex got = obj_Index obj' \<longrightarrow>
               (\<exists>ob' ds''. GetObject B ds' (Key (obj_Key obj)) ob = (None, ob', ds'') \<and>
                  obj_Value ob' = Some v \<and> obj_Index ob' = obj_Index obj' \<and> store ds'' = b)) \<and>
            (\<forall>e b. cache ds = None \<and>
               bs_Get B (store ds') (Key (obj_Key obj)) = (Inl e, b) \<longrightarrow>
               fst (GetObject B ds' (Key (obj_Key obj)) ob) = Some e)))) \<and>
   (history ds0 = [] \<and> valid_run B ds0 xs \<longrightarrow> cache_not_behind (run B ds0 xs)) \<and>
   (history ds0 = [] \<longrightarrow> faithful B (store ds0) (run B ds0 xs))"
proof (intro conjI impI)
  assume a: "\<not> obj_Skip obj \<and> obj_Value obj = Some v \<and>
      PutObjectAtomic B ds (Some obj) = (None, Some obj', ds')"
  then have ns: "\<not> obj_Skip obj" and v: "obj_Value obj = Some v"
    and put: "PutObjectAtomic B ds (Some obj) = (None, Some obj', ds')"
    by simp_all
  let ?k = "Key (obj_Key obj)"
  let ?prev = "if obj_Exists obj
            then Some \<lparr>pair_Key = ?k, pair_Value = [], pair_LastIndex = obj_Index obj\<rparr>
            else None"
  from put_success_shape [OF ns v put] obtain pair where
    call: "bs_AtomicPut B (store ds) ?k v ?prev = (Inr pair, store ds')"
    and obj': "obj' = SetIndex obj (pair_LastIndex pair)"
    and h: "history ds' = history ds @ [EvAtomicPut ?k v ?prev (Inr pair)]"
    and c': "cache ds' = map_option (AList.update ?k (entry_of obj')) (cache ds)"
    by (elim exE conjE)
  have i: "obj_Index obj' = pair_LastIndex pair" and val: "obj_Value obj' = Some v"
    using obj' v by simp_all
  have la: "map_of (last_accepted (history ds')) ?k = Some (pair_LastIndex pair)"
    by (simp add: h last_accepted_snoc update_conv')
  have ca: "\<forall>c. cache ds = Some c \<longrightarrow>
            (\<exists>c'. cache ds' = Some c' \<and>
               map_option ce_version (map_of c' ?k) = Some (pair_LastIndex pair) \<and>
               map_option ce_value (map_of c' ?k) = Some v)"
    using c' i val by (auto simp: update_conv' entry_of_def)
  have get: "Key (obj_Key ob) = ?k \<and> obj_Decodes ob v \<longrightarrow>
            (\<forall>c. cache ds = Some c \<longrightarrow>
               (\<exists>ob'. GetObject B ds' key ob = (None, ob', ds') \<and> obj_Value ob' = Some v \<and>
                  obj_Index ob' = obj_Index obj')) \<and>
            (\<forall>got b. cache ds = None \<and>
               bs_Get B (store ds') ?k = (Inr got, b) \<and>
               pair_Value got = v \<and> pair_LastIndex got = obj_Index obj' \<longrightarrow>
               (\<exists>ob' ds''. GetObject B ds' ?k ob = (None, ob', ds'') \<and>
                  obj_Value ob' = Some v \<and> obj_Index ob' = obj_Index obj' \<and> store ds'' = b)) \<and>
            (\<forall>e b. cache ds = None \<and>
               bs_Get B (store ds') ?k = (Inl e, b) \<longrightarrow>
               fst (GetObject B ds' ?k ob) = Some e)"
  proof (intro impI conjI allI; (elim conjE)?)
    fix c assume "Key (obj_Key ob) = ?k" "obj_Decodes ob v" "cache ds = Some c"
    then show "\<exists>ob'. GetObject B ds' key ob = (None, ob', ds') \<and> obj_Value ob' = Some v \<and>
                  obj_Index ob' = obj_Index obj'"
      using get_after_put(1) [OF ns v put] by blast
  next
    fix got b assume "Key (obj_Key ob) = ?k" "obj_Decodes ob v" "cache ds = None"
      "bs_Get B (store ds') ?k = (Inr got, b)" "pair_Value got = v"
      "pair_LastIndex got = obj_Index obj'"
    then show "\<exists>ob' ds''. GetObject B ds' ?k ob = (None, ob', ds'') \<and>
                  obj_Value ob' = Some v \<and> obj_Index ob' = obj_Index obj' \<and> store ds'' = b"
      using get_after_put(2) [OF ns v put] by blast
  next
    fix e b assume "Key (obj_Key ob) = ?k" "obj_Decodes ob v" "cache ds = None"
      "bs_Get B (store ds') ?k = (Inl e, b)"
    then show "fst (GetObject B ds' ?k ob) = Some e"
      using get_after_put(3) [OF ns v put] by blast
  qed
  show "\<exists>pair.
         bs_AtomicPut B (store ds) ?k v ?prev = (Inr pair, store ds') \<and>
         obj_Index obj' = pair_LastIndex pair \<and> obj_Value obj' = Some v \<and>
         map_of (last_accepted (history ds')) ?k = Some (pair_LastIndex pair) \<and>
         (\<forall>c. cache ds = Some c \<longrightarrow>
            (\<exists>c'. cache ds' = Some c' \<and>
               map_option ce_version (map_of c' ?k) = Some (pair_LastIndex pair) \<and>
               map_option ce_value (map_of c' ?k) = Some v)) \<and>
         (Key (obj_Key ob) = ?k \<and> obj_Decodes ob v \<longrightarrow>
            (\<forall>c. cache ds = Some c \<longrightarrow>
               (\<exists>ob'. GetObject B ds' key ob = (None, ob', ds') \<and> obj_Value ob' = Some v \<and>
                  obj_Index ob' = obj_Index obj')) \<and>
            (\<forall>got b. cache ds = None \<and>
               bs_Get B (store ds') ?k = (Inr got, b) \<and>
               pair_Value got = v \<and> pair_LastIndex got = obj_Index obj' \<longrightarrow>
               (\<exists>ob' ds''. GetObject B ds' ?k ob = (None, ob', ds'') \<and>
                  obj_Value ob' = Some v \<and> obj_Index ob' = obj_Index obj' \<and> store ds'' = b)) \<and>
            (\<forall>e b. cache ds = None \<and>
               bs_Get B (store ds') ?k = (Inl e, b) \<longrightarrow>
               fst (GetObject B ds' ?k ob) = Some e))"
    by (intro exI [of _ pair] conjI) (fact call i val la ca get)+
next
  assume "history ds0 = [] \<and> valid_run B ds0 xs"
  then have "coherent (run B ds0 xs)"
    by (intro coherent_run coherent_fresh) simp_all
  then show "cache_not_behind (run B ds0 xs)"
    by (rule coherent_not_behind)
next
  assume "history ds0 = []"
  then show "faithful B (store ds0) (run B ds0 xs)"
    by (intro faithful_run faithful_fresh)
qed

theorem coherence_through_facade_witness:
  "\<not> obj_Skip (net_obj ''a'' [1] False) \<and>
   PutObjectAtomic mem_store empty_Store (Some (net_obj ''a'' [1] False)) =
     (None, Some (stored_obj [1] False 1), once_Store) \<and>
   (\<exists>pair. bs_AtomicPut mem_store (store empty_Store) ''docker/network/v1.0/network/a/'' [1] None =
            (Inr pair, store once_Store) \<and> pair_LastIndex pair = 1) \<and>
   (\<exists>ob'. GetObject mem_store once_Store ''docker/network/v1.0/network/a/''
             (net_obj ''a'' [] False) = (None, ob', once_Store) \<and>
          obj_Value ob' = Some [1] \<and> obj_Index ob' = 1) \<and>
   map_of (last_accepted (history once_Store)) ''docker/network/v1.0/network/a/'' = Some 1 \<and>
   cache plain_Store = None \<and>
   (\<exists>ob' ds''. GetObject mem_store
       (snd (snd (PutObjectAtomic mem_store plain_Store (Some (net_obj ''a'' [1] False)))))
       ''docker/network/v1.0/network/a/'' (net_obj ''a'' [] False) = (None, ob', ds'') \<and>
       obj_Value ob' = Some [1] \<and> obj_Index ob' = 1) \<and>
   history empty_Store = [] \<and>
   valid_run mem_store empty_Store (two_puts @ [OpPut (Some (stored_obj [3] True 2))]) \<and>
   cache_not_behind
     (run mem_store empty_Store (two_puts @ [OpPut (Some (stored_obj [3] True 2))])) \<and>
   faithful mem_store (store empty_Store)
     (run mem_store empty_Store (two_puts @ [OpPut (Some (stored_obj [3] True 2))]))"
proof -
  let ?k = "''docker/network/v1.0/network/a/''"
  let ?a = "net_obj ''a'' [1] False"
  let ?ob = "net_obj ''a'' [] False"
  let ?xs = "two_puts @ [OpPut (Some (stored_obj [3] True 2))]"
  let ?plain1 = "plain_Store\<lparr>store := [(?k, [1], 1)],
        history := [EvAtomicPut ?k [1] None
           (Inr \<lparr>pair_Key = ?k, pair_Value = [1], pair_LastIndex = 1\<rparr>)]\<rparr>"
  note inst = coherence_through_facade [where ds = empty_Store and obj = ?a and v = "[1]"
      and B = mem_store and obj' = "stored_obj [1] False 1" and ds' = once_Store
      and ob = ?ob and key = ?k and ds0 = empty_Store and xs = ?xs]
  note inst2 = coherence_through_facade [where ds = plain_Store and obj = ?a and v = "[1]"
      and B = mem_store and obj' = "stored_obj [1] False 1" and ds' = ?plain1
      and ob = ?ob and key = ?k and ds0 = empty_Store and xs = ?xs]
  have c: "cache empty_Store = Some []" and h: "history empty_Store = []"
    and cn: "cache plain_Store = None"
    by (simp_all add: empty_Store_def plain_Store_def)
  have ns: "\<not> obj_Skip ?a" and v: "obj_Value ?a = Some [1]"
    and kd: "Key (obj_Key ?ob) = Key (obj_Key ?a) \<and> obj_Decodes ?ob [1]"
    and nx: "\<not> obj_Exists ?a"
    by (simp_all add: net_obj_def)
  note put = Put_empty_Store
  have put2: "PutObjectAtomic mem_store plain_Store (Some ?a) =
      (None, Some (stored_obj [1] False 1), ?plain1)"
    by (simp add: Put_plain_Store)
  have i: "obj_Index (stored_obj [1] False 1) = 1"
    by (simp add: stored_obj_def)
  from inst [THEN conjunct1, rule_format, OF conjI [OF ns conjI [OF v put]]]
  obtain pair where
    call: "bs_AtomicPut mem_store (store empty_Store) (Key (obj_Key ?a)) [1]
           (if obj_Exists ?a
            then Some \<lparr>pair_Key = Key (obj_Key ?a), pair_Value = [],
                       pair_LastIndex = obj_Index ?a\<rparr>
            else None) = (Inr pair, store once_Store)"
    and pi: "obj_Index (stored_obj [1] False 1) = pair_LastIndex pair"
    and la: "map_of (last_accepted (history once_Store)) (Key (obj_Key ?a)) =
               Some (pair_LastIndex pair)"
    and get: "Key (obj_Key ?ob) = Key (obj_Key ?a) \<and> obj_Decodes ?ob [1] \<longrightarrow>
            (\<forall>c. cache empty_Store = Some c \<longrightarrow>
               (\<exists>ob'. GetObject mem_store once_Store ?k ?ob = (None, ob', once_Store) \<and>
                  obj_Value ob' = Some [1] \<and>
                  obj_Index ob' = obj_Index (stored_obj [1] False 1))) \<and>
            (\<forall>got b. cache empty_Store = None \<and>
               bs_Get mem_store (store once_Store) (Key (obj_Key ?a)) = (Inr got, b) \<and>
               pair_Value got = [1] \<and> pair_LastIndex got = obj_Index (stored_obj [1] False 1) \<longrightarrow>
               (\<exists>ob' ds''. GetObject mem_store once_Store (Key (obj_Key ?a)) ?ob =
                    (None, ob', ds'') \<and>
                  obj_Value ob' = Some [1] \<and>
                  obj_Index ob' = obj_Index (stored_obj [1] False 1) \<and> store ds'' = b)) \<and>
            (\<forall>e b. cache empty_Store = None \<and>
               bs_Get mem_store (store once_Store) (Key (obj_Key ?a)) = (Inl e, b) \<longrightarrow>
               fst (GetObject mem_store once_Store (Key (obj_Key ?a)) ?ob) = Some e)"
    by (elim exE conjE)
  from call pi have w1: "\<exists>pair. bs_AtomicPut mem_store (store empty_Store) ?k [1] None =
            (Inr pair, store once_Store) \<and> pair_LastIndex pair = 1"
    by (auto simp: nx Key_a i)
  from get [rule_format, OF kd, THEN conjunct1, rule_format, OF c]
  have w2: "\<exists>ob'. GetObject mem_store once_Store ?k ?ob = (None, ob', once_Store) \<and>
          obj_Value ob' = Some [1] \<and> obj_Index ob' = 1"
    by (simp add: i)
  from la pi have w3: "map_of (last_accepted (history once_Store)) ?k = Some 1"
    by (simp add: Key_a i)
  have g: "bs_Get mem_store (store ?plain1) (Key (obj_Key ?a)) =
      (Inr \<lparr>pair_Key = ?k, pair_Value = [1], pair_LastIndex = 1\<rparr>, [(?k, [1], 1)])"
    by (simp add: mem_defs Key_a)
  from inst2 [THEN conjunct1, rule_format, OF conjI [OF ns conjI [OF v put2]]]
  obtain pair2 where
    get2: "Key (obj_Key ?ob) = Key (obj_Key ?a) \<and> obj_Decodes ?ob [1] \<longrightarrow>
            (\<forall>c. cache plain_Store = Some c \<longrightarrow>
               (\<exists>ob'. GetObject mem_store ?plain1 ?k ?ob = (None, ob', ?plain1) \<and>
                  obj_Value ob' = Some [1] \<and>
                  obj_Index ob' = obj_Index (stored_obj [1] False 1))) \<and>
            (\<forall>got b. cache plain_Store = None \<and>
               bs_Get mem_store (store ?plain1) (Key (obj_Key ?a)) = (Inr got, b) \<and>
               pair_Value got = [1] \<and> pair_LastIndex got = obj_Index (stored_obj [1] False 1) \<longrightarrow>
               (\<exists>ob' ds''. GetObject mem_store ?plain1 (Key (obj_Key ?a)) ?ob =
                    (None, ob', ds'') \<and>
                  obj_Value ob' = Some [1] \<and>
                  obj_Index ob' = obj_Index (stored_obj [1] False 1) \<and> store ds'' = b)) \<and>
            (\<forall>e b. cache plain_Store = None \<and>
               bs_Get mem_store (store ?plain1) (Key (obj_Key ?a)) = (Inl e, b) \<longrightarrow>
               fst (GetObject mem_store ?plain1 (Key (obj_Key ?a)) ?ob) = Some e)"
    by (elim exE conjE)
  have gi: "pair_Value \<lparr>pair_Key = ?k, pair_Value = [1], pair_LastIndex = 1\<rparr> = [1] \<and>
      pair_LastIndex \<lparr>pair_Key = ?k, pair_Value = [1], pair_LastIndex = 1\<rparr> =
        obj_Index (stored_obj [1] False 1)"
    by (simp add: i)
  from get2 [rule_format, OF kd, THEN conjunct2, THEN conjunct1, rule_format,
      OF conjI [OF cn conjI [OF g gi]]]
  have w4: "\<exists>ob' ds''. GetObject mem_store
       (snd (snd (PutObjectAtomic mem_store plain_Store (Some ?a)))) ?k ?ob = (None, ob', ds'') \<and>
       obj_Value ob' = Some [1] \<and> obj_Index ob' = 1"
    by (auto simp: put2 i Key_a)
  have "backend_holds twice_Store ?k"
    by (simp add: backend_holds_def accepted_twice_Store)
  then have valid: "valid_run mem_store empty_Store ?xs"
    by (simp add: valid_run_append valid_two_puts run_two_puts stored_obj_def)
  from inst [THEN conjunct2, THEN conjunct1, rule_format, OF conjI [OF h valid]]
  have nb: "cache_not_behind (run mem_store empty_Store ?xs)" .
  from inst [THEN conjunct2, THEN conjunct2, rule_format, OF h]
  have fa: "faithful mem_store (store empty_Store) (run mem_store empty_Store ?xs)" .
  show ?thesis
    by (intro conjI) (fact ns put w1 w2 w3 cn w4 h valid nb fa)+
qed

end
